theory Spec2Isabelle
  imports Complex_Main "HOL-Library.Word" "HOL-Library.Monad_Syntax" "HOL-Library.Multiset"
begin

section \<open>The record store \<open>LabThreadSafeData\<close>\<close>

text \<open>
  The C++ class owns a vector of \<open>int\<close> fields, one \<open>std::shared_mutex\<close> per field, one
  read counter and one write counter per field (\<open>std::atomic<size_t>\<close>), a counter of string
  conversions and a counter of all operations.

  \<^item> \<open>int\<close> is a 32-bit word read as two's complement (\<open>sint\<close>);
  \<^item> \<open>size_t\<close> is a 64-bit word, so \<open>++\<close> on a counter wraps around;
  \<^item> each member function is a function from the store to the updated store;
  \<^item> \<open>v[i]\<close> on a \<open>std::vector\<close> with \<open>i \<ge> v.size()\<close> is undefined behaviour in C++: the
    model returns \<open>Inl UndefinedBehaviour\<close> there and nothing is claimed about it.

  Every lock of a member function is taken and released inside the call (the guards are
  scoped objects), so in a sequential run each mutex is free at every call boundary and
  taking it always succeeds. The store of the sequential model therefore carries no mutex;
  the mutexes are part of the model of concurrent runs further down.

  The conversion \<open>operator std::string\<close>, which the specification calls the snapshot, is
  \<open>operator_string\<close> here.
\<close>

type_synonym cint = "32 word"
type_synonym size_t = "64 word"

datatype error = UndefinedBehaviour

record LabThreadSafeData =
  fields_vec :: "cint list"
  read_count :: "size_t list"
  write_count :: "size_t list"
  string_count :: size_t
  total_ops :: size_t

text \<open>
  The constructor: \<open>fields(m, 0)\<close>, \<open>read_count(m)\<close>, \<open>write_count(m)\<close>. The counters of the
  two vectors are value-initialised, which for \<open>std::atomic<size_t>\<close> is zero; the two scalar
  counters have the initialiser \<open>{ 0 }\<close>. A failure to allocate the vectors (an exception of
  the library) is not part of the model.
\<close>

definition new_LabThreadSafeData :: "size_t \<Rightarrow> LabThreadSafeData" where
  "new_LabThreadSafeData m =
     \<lparr> fields_vec = replicate (unat m) 0,
       read_count = replicate (unat m) 0,
       write_count = replicate (unat m) 0,
       string_count = 0,
       total_ops = 0 \<rparr>"

text \<open>The class invariant: the three vectors have the length given at construction.\<close>

definition wf_store :: "LabThreadSafeData \<Rightarrow> bool" where
  "wf_store s \<longleftrightarrow>
     length (read_count s) = length (fields_vec s) \<and> length (write_count s) = length (fields_vec s)"

definition readField :: "LabThreadSafeData \<Rightarrow> size_t \<Rightarrow> error + (cint \<times> LabThreadSafeData)" where
  "readField s index =
     (if unat index < length (read_count s) \<and> unat index < length (fields_vec s) then
        (let s1 = s\<lparr>read_count := (read_count s)[unat index := read_count s ! unat index + 1]\<rparr>;
             s2 = s1\<lparr>total_ops := total_ops s1 + 1\<rparr>
         in Inr (fields_vec s2 ! unat index, s2))
      else Inl UndefinedBehaviour)"

definition writeField :: "LabThreadSafeData \<Rightarrow> size_t \<Rightarrow> cint \<Rightarrow> error + LabThreadSafeData" where
  "writeField s index val =
     (if unat index < length (write_count s) \<and> unat index < length (fields_vec s) then
        (let s1 = s\<lparr>write_count := (write_count s)[unat index := write_count s ! unat index + 1]\<rparr>;
             s2 = s1\<lparr>total_ops := total_ops s1 + 1\<rparr>
         in Inr (s2\<lparr>fields_vec := (fields_vec s2)[unat index := val]\<rparr>))
      else Inl UndefinedBehaviour)"

subsection \<open>Formatted output of an \<open>int\<close>\<close>

text \<open>
  \<open>oss << fields[i]\<close> writes the value in decimal, with a leading \<open>-\<close> when it is negative
  (default flags, classic locale: no grouping, no padding).
\<close>

definition digit_char :: "nat \<Rightarrow> char" where
  "digit_char d = ''0123456789'' ! d"

fun nat_digits :: "nat \<Rightarrow> string" where
  "nat_digits n = (if n < 10 then [digit_char n] else nat_digits (n div 10) @ [digit_char (n mod 10)])"

declare nat_digits.simps [simp del]

definition put_int :: "cint \<Rightarrow> string" where
  "put_int x = (if sint x < 0 then CHR ''-'' # nat_digits (nat (- sint x)) else nat_digits (nat (sint x)))"

subsection \<open>The string conversion\<close>

text \<open>
  The body of the loop of \<open>operator std::string\<close> for index \<open>i\<close> (what it does while it
  holds the shared lock of field \<open>i\<close>), and the loop from index \<open>i\<close> with the text written so
  far. The index never exceeds the size of the vector, so it does not wrap;
  \<open>fields.size() - 1\<close> is computed in \<open>size_t\<close> and wraps to \<open>2^64 - 1\<close> for an empty vector.
\<close>

definition size_minus_1 :: "nat \<Rightarrow> nat" where
  "size_minus_1 n = (if n = 0 then 2 ^ 64 - 1 else n - 1)"

definition operator_string_body :: "cint list \<Rightarrow> nat \<Rightarrow> string \<Rightarrow> string" where
  "operator_string_body fs i oss =
     (let oss1 = oss @ put_int (fs ! i)
      in if i \<noteq> size_minus_1 (length fs) then oss1 @ '', '' else oss1)"

function operator_string_loop :: "cint list \<Rightarrow> nat \<Rightarrow> string \<Rightarrow> string" where
  "operator_string_loop fs i oss =
     (if i < length fs then operator_string_loop fs (i + 1) (operator_string_body fs i oss)
      else oss)"
  by pat_completeness auto
termination
  by (relation "measure (\<lambda>(fs, i, oss). length fs - i)") auto

declare operator_string_loop.simps [simp del]

definition operator_string :: "LabThreadSafeData \<Rightarrow> string \<times> LabThreadSafeData" where
  "operator_string s =
     (let oss = operator_string_loop (fields_vec s) 0 [];
          s1 = s\<lparr>string_count := string_count s + 1\<rparr>;
          s2 = s1\<lparr>total_ops := total_ops s1 + 1\<rparr>
      in (oss, s2))"

subsection \<open>Sequences of calls\<close>

text \<open>
  A sequence of calls of the three member functions, applied from left to right. The value
  returned by \<open>readField\<close> and the text returned by the string conversion are dropped, as
  the executor drops them. Undefined behaviour of one call ends the run.
\<close>

datatype call = ReadField size_t | WriteField size_t cint | Snapshot

fun apply_call :: "LabThreadSafeData \<Rightarrow> call \<Rightarrow> error + LabThreadSafeData" where
  "apply_call s (ReadField i) = (case readField s i of Inl e \<Rightarrow> Inl e | Inr (v, s') \<Rightarrow> Inr s')"
| "apply_call s (WriteField i v) = writeField s i v"
| "apply_call s Snapshot = Inr (snd (operator_string s))"

fun apply_calls :: "LabThreadSafeData \<Rightarrow> call list \<Rightarrow> error + LabThreadSafeData" where
  "apply_calls s [] = Inr s"
| "apply_calls s (c # cs) = (case apply_call s c of Inl e \<Rightarrow> Inl e | Inr s' \<Rightarrow> apply_calls s' cs)"

text \<open>A call is in range for a store of \<open>n\<close> fields when its index is below \<open>n\<close>.\<close>

fun call_in_range :: "nat \<Rightarrow> call \<Rightarrow> bool" where
  "call_in_range n (ReadField i) \<longleftrightarrow> unat i < n"
| "call_in_range n (WriteField i v) \<longleftrightarrow> unat i < n"
| "call_in_range n Snapshot \<longleftrightarrow> True"

fun writes_field :: "size_t \<Rightarrow> call \<Rightarrow> bool" where
  "writes_field i (WriteField j v) \<longleftrightarrow> j = i"
| "writes_field i _ \<longleftrightarrow> False"

text \<open>
  The sum of the counters, once in \<open>size_t\<close> arithmetic (as a C++ expression over the
  counters would compute it) and once as a natural number.
\<close>

definition counters_sum :: "LabThreadSafeData \<Rightarrow> size_t" where
  "counters_sum s = sum_list (read_count s) + sum_list (write_count s) + string_count s"

definition counters_total :: "LabThreadSafeData \<Rightarrow> nat" where
  "counters_total s =
     sum_list (map unat (read_count s)) + sum_list (map unat (write_count s)) + unat (string_count s)"

text \<open>A comma-separated list, in the words of the specification: the items in order, with
  a comma and a blank between two neighbours.\<close>

fun comma_separated :: "string list \<Rightarrow> string" where
  "comma_separated [] = []"
| "comma_separated [x] = x"
| "comma_separated (x # y # ys) = x @ '', '' @ comma_separated (y # ys)"

subsection \<open>Statistics\<close>

text \<open>
  \<open>printStats\<close> writes to \<open>std::cout\<close>. The output is modelled as the list of the items
  written, one per \<open>operator<<\<close>: a string literal, a \<open>size_t\<close> or a \<open>double\<close>. The arithmetic
  on \<open>double\<close> is idealised as exact arithmetic on rationals; a division by zero, which in
  IEEE arithmetic gives an infinity or a NaN, gives \<open>NotFinite\<close>. The property proved about
  \<open>printStats\<close> concerns the values \<open>100.0 * 0 / 1\<close> only, where \<open>double\<close> arithmetic is exact.
\<close>

datatype dbl = Finite rat | NotFinite

definition fdiv :: "rat \<Rightarrow> rat \<Rightarrow> dbl" where
  "fdiv x y = (if y = 0 then NotFinite else Finite (x / y))"

text \<open>\<open>100.0 * c / ops\<close> for two \<open>size_t\<close> values.\<close>

definition percent :: "size_t \<Rightarrow> size_t \<Rightarrow> dbl" where
  "percent c ops = fdiv (100 * of_nat (unat c)) (of_nat (unat ops))"

datatype out = Str string | Num size_t | Dbl dbl

text \<open>The local variable \<open>ops\<close> after the guard \<open>if (ops == 0) ops = 1\<close>.\<close>

definition stats_ops :: "LabThreadSafeData \<Rightarrow> size_t" where
  "stats_ops s = (let ops = total_ops s in if ops = 0 then 1 else ops)"

function printStats_loop :: "LabThreadSafeData \<Rightarrow> size_t \<Rightarrow> nat \<Rightarrow> out list \<Rightarrow> error + out list" where
  "printStats_loop s ops i cout =
     (if i < length (fields_vec s) then
        (if i < length (read_count s) \<and> i < length (write_count s) then
           (let r = percent (read_count s ! i) ops;
                w = percent (write_count s ! i) ops
            in printStats_loop s ops (i + 1)
                 (cout @ [Str ''Field '', Num (word_of_nat i), Str '': '', Dbl r, Str ''% / '', Dbl w,
                          Str ''%\<newline>'']))
         else Inl UndefinedBehaviour)
      else Inr cout)"
  by pat_completeness auto
termination
  by (relation "measure (\<lambda>(s, ops, i, cout). length (fields_vec s) - i)") auto

declare printStats_loop.simps [simp del]

definition printStats :: "LabThreadSafeData \<Rightarrow> error + out list" where
  "printStats s =
     (let ops = stats_ops s;
          cout = [Str ''Field stats (Read%, Write%):\<newline>'']
      in case printStats_loop s ops 0 cout of
           Inl e \<Rightarrow> Inl e
         | Inr cout1 \<Rightarrow>
             (let sp = percent (string_count s) ops
              in Inr (cout1 @ [Str ''String requests: '', Dbl sp, Str ''%\<newline>''])))"

text \<open>The line that \<open>printStats\<close> writes for field \<open>i\<close>, and the line for a field whose two
  percentages are zero.\<close>

definition stats_row :: "LabThreadSafeData \<Rightarrow> size_t \<Rightarrow> nat \<Rightarrow> out list" where
  "stats_row s ops i =
     [Str ''Field '', Num (word_of_nat i), Str '': '', Dbl (percent (read_count s ! i) ops), Str ''% / '',
      Dbl (percent (write_count s ! i) ops), Str ''%\<newline>'']"

definition zero_row :: "nat \<Rightarrow> out list" where
  "zero_row i =
     [Str ''Field '', Num (word_of_nat i), Str '': '', Dbl (Finite 0), Str ''% / '', Dbl (Finite 0),
      Str ''%\<newline>'']"

section \<open>The executor\<close>

subsection \<open>Formatted input from a \<open>std::istringstream\<close>\<close>

text \<open>
  \<open>executeFile\<close> reads every line through \<open>operator>>\<close> of the standard library. The stream
  is the text not read yet and the two state bits the extractions depend on.

  \<^item> Every formatted extraction starts with the sentry: on a stream that is not good it sets
    \<open>failbit\<close> and fails; otherwise it skips white space, and when that reaches the end of
    the text it sets \<open>eofbit\<close> and \<open>failbit\<close> and fails.
  \<^item> When the sentry fails the target variable keeps its old value. A local \<open>int\<close> that was
    never assigned has no value (\<open>None\<close>), and passing it to a function is undefined
    behaviour.
  \<^item> \<open>>>\<close> into a string reads up to the next white space or the end of the text.
  \<^item> \<open>>>\<close> into an \<open>int\<close> reads an optional sign and decimal digits. With no digit it
    stores 0 and sets \<open>failbit\<close>; a value outside the range of \<open>int\<close> stores the nearest
    bound and sets \<open>failbit\<close> (the rule since C++11).
\<close>

record istringstream =
  rest :: string
  eofbit :: bool
  failbit :: bool

definition str_stream :: "string \<Rightarrow> istringstream" where
  "str_stream line = \<lparr> rest = line, eofbit = False, failbit = False \<rparr>"

definition good :: "istringstream \<Rightarrow> bool" where
  "good iss \<longleftrightarrow> \<not> eofbit iss \<and> \<not> failbit iss"

definition isspace :: "char \<Rightarrow> bool" where
  "isspace c \<longleftrightarrow> c = CHR '' '' \<or> c = CHR 0x09 \<or> c = CHR ''\<newline>'' \<or> c = CHR 0x0B \<or>
     c = CHR 0x0C \<or> c = CHR 0x0D"

definition isdigit :: "char \<Rightarrow> bool" where
  "isdigit c \<longleftrightarrow> c \<in> set ''0123456789''"

definition digit_val :: "char \<Rightarrow> nat" where
  "digit_val c = of_char c - 48"

definition decimal :: "string \<Rightarrow> nat" where
  "decimal ds = fold (\<lambda>c n. 10 * n + digit_val c) ds 0"

definition sentry :: "istringstream \<Rightarrow> bool \<times> istringstream" where
  "sentry iss =
     (if \<not> good iss then (False, iss\<lparr>failbit := True\<rparr>)
      else (let r = dropWhile isspace (rest iss)
            in if r = [] then (False, iss\<lparr>rest := [], eofbit := True, failbit := True\<rparr>)
               else (True, iss\<lparr>rest := r\<rparr>)))"

definition extract_string :: "istringstream \<Rightarrow> string \<Rightarrow> string \<times> istringstream" where
  "extract_string iss str =
     (case sentry iss of
        (False, iss1) \<Rightarrow> (str, iss1)
      | (True, iss1) \<Rightarrow>
          (let tok = takeWhile (\<lambda>c. \<not> isspace c) (rest iss1);
               r = dropWhile (\<lambda>c. \<not> isspace c) (rest iss1)
           in (tok, iss1\<lparr>rest := r, eofbit := (r = [])\<rparr>)))"

definition extract_int :: "istringstream \<Rightarrow> cint option \<Rightarrow> cint option \<times> istringstream" where
  "extract_int iss v =
     (case sentry iss of
        (False, iss1) \<Rightarrow> (v, iss1)
      | (True, iss1) \<Rightarrow>
          (let (neg, r1) = (case rest iss1 of
                              [] \<Rightarrow> (False, [])
                            | c # cs \<Rightarrow> if c = CHR ''-'' then (True, cs)
                                       else if c = CHR ''+'' then (False, cs)
                                       else (False, c # cs));
               ds = takeWhile isdigit r1;
               r2 = dropWhile isdigit r1;
               iss2 = iss1\<lparr>rest := r2, eofbit := (r2 = [])\<rparr>;
               n = (if neg then - int (decimal ds) else int (decimal ds))
           in if ds = [] then (Some 0, iss2\<lparr>failbit := True\<rparr>)
              else if n < - (2 ^ 31) then (Some (word_of_int (- (2 ^ 31))), iss2\<lparr>failbit := True\<rparr>)
              else if 2 ^ 31 - 1 < n then (Some (word_of_int (2 ^ 31 - 1)), iss2\<lparr>failbit := True\<rparr>)
              else (Some (word_of_int n), iss2)))"

text \<open>The conversion of the \<open>int\<close> argument \<open>idx\<close> to the \<open>size_t\<close> parameter \<open>index\<close>: the
  value modulo \<open>2^64\<close>, so a negative index becomes a very large one.\<close>

definition int_to_size_t :: "cint \<Rightarrow> size_t" where
  "int_to_size_t i = word_of_int (sint i)"

subsection \<open>One line, and a whole file\<close>

text \<open>The body of the loop of \<open>executeFile\<close> for one line of the file.\<close>

definition exec_line :: "LabThreadSafeData \<Rightarrow> string \<Rightarrow> error + LabThreadSafeData" where
  "exec_line data line =
     (let iss = str_stream line;
          (cmd, iss1) = extract_string iss []
      in if cmd = ''write'' then
           (let (idx, iss2) = extract_int iss1 None;
                (val, iss3) = extract_int iss2 None
            in case (idx, val) of
                 (Some i, Some v) \<Rightarrow> writeField data (int_to_size_t i) v
               | _ \<Rightarrow> Inl UndefinedBehaviour)
         else if cmd = ''read'' then
           (let (idx, iss2) = extract_int iss1 None
            in case idx of
                 Some i \<Rightarrow> (case readField data (int_to_size_t i) of
                              Inl e \<Rightarrow> Inl e
                            | Inr (x, data') \<Rightarrow> Inr data')
               | None \<Rightarrow> Inl UndefinedBehaviour)
         else if cmd = ''string'' then Inr (snd (operator_string data))
         else Inr data)"

text \<open>
  \<open>std::getline\<close> on the text of the file not read yet: the line up to the next newline
  and the text after it, or \<open>None\<close> at the end of the file. A file that cannot be opened
  leaves the stream in a failed state, and the loop then behaves as on the empty file.
\<close>

definition getline :: "string \<Rightarrow> (string \<times> string) option" where
  "getline fin =
     (if fin = [] then None
      else Some (takeWhile (\<lambda>c. c \<noteq> CHR ''\<newline>'') fin,
                 drop 1 (dropWhile (\<lambda>c. c \<noteq> CHR ''\<newline>'') fin)))"

function executeFile :: "LabThreadSafeData \<Rightarrow> string \<Rightarrow> error + LabThreadSafeData" where
  "executeFile data fin =
     (case getline fin of
        None \<Rightarrow> Inr data
      | Some (line, fin') \<Rightarrow>
          (case exec_line data line of
             Inl e \<Rightarrow> Inl e
           | Inr data' \<Rightarrow> executeFile data' fin'))"
  by pat_completeness auto
termination
proof (relation "measure (\<lambda>(data, fin). length fin)")
  show "wf (measure (\<lambda>(data :: LabThreadSafeData, fin :: string). length fin))" by simp
next
  fix data data' :: LabThreadSafeData and fin :: string and x2 line fin'
  assume g: "getline fin = Some x2" and p: "(line, fin') = x2"
  from g have ne: "fin \<noteq> []" by (auto simp: getline_def split: if_splits)
  from g p have f: "fin' = drop 1 (dropWhile (\<lambda>c. c \<noteq> CHR ''\<newline>'') fin)"
    by (auto simp: getline_def split: if_splits)
  have "length (dropWhile (\<lambda>c. c \<noteq> CHR ''\<newline>'') fin) \<le> length fin"
    by (rule length_dropWhile_le)
  with ne f have "length fin' < length fin" by (cases fin) auto
  then show "((data', fin'), (data, fin)) \<in> measure (\<lambda>(data, fin). length fin)" by simp
qed

declare executeFile.simps [simp del]

text \<open>The lines of a file as the loop of \<open>executeFile\<close> sees them, and the leading token of
  a line: what \<open>iss >> cmd\<close> leaves in \<open>cmd\<close>.\<close>

function file_lines :: "string \<Rightarrow> string list" where
  "file_lines fin = (case getline fin of None \<Rightarrow> [] | Some (line, fin') \<Rightarrow> line # file_lines fin')"
  by pat_completeness auto
termination
proof (relation "measure length")
  show "wf (measure (length :: string \<Rightarrow> nat))" by simp
next
  fix fin :: string and x2 line fin'
  assume g: "getline fin = Some x2" and p: "(line, fin') = x2"
  from g have ne: "fin \<noteq> []" by (auto simp: getline_def split: if_splits)
  from g p have f: "fin' = drop 1 (dropWhile (\<lambda>c. c \<noteq> CHR ''\<newline>'') fin)"
    by (auto simp: getline_def split: if_splits)
  have "length (dropWhile (\<lambda>c. c \<noteq> CHR ''\<newline>'') fin) \<le> length fin"
    by (rule length_dropWhile_le)
  with ne f have "length fin' < length fin" by (cases fin) auto
  then show "(fin', fin) \<in> measure length" by simp
qed

declare file_lines.simps [simp del]


section \<open>The workload generator\<close>

text \<open>
  \<open>generateFile\<close> computes seven counts \<open>static_cast<int>(num_ops * p / 100.0)\<close> in \<open>double\<close>
  arithmetic, pushes that many copies of each operation, pads with \<open>string\<close> while the
  vector is shorter than \<open>num_ops\<close>, shuffles and writes one operation per line.

  \<^item> The type of the percentages and the function \<open>scaled\<close>, which stands for the expression
    \<open>static_cast<int>(num_ops * p / 100.0)\<close>, are parameters of the model, so what is proved
    for every \<open>scaled\<close> holds for the rounding of IEEE arithmetic too. The conversion of a
    value outside the range of \<open>int\<close> is undefined behaviour: \<open>scaled\<close> returns \<open>None\<close>.
  \<^item> \<open>scaled_exact\<close> is that expression in exact arithmetic on rationals, truncated towards
    zero.
  \<^item> \<open>std::shuffle\<close> with a generator seeded from \<open>std::random_device\<close> is a parameter too:
    some function on lists, of which the library promises that it permutes its argument.
\<close>

record 'd OpsPercent =
  read1 :: 'd
  write1 :: 'd
  read2 :: 'd
  write2 :: 'd
  read3 :: 'd
  write3 :: 'd
  string_op :: 'd

definition scaled_exact :: "cint \<Rightarrow> rat \<Rightarrow> cint option" where
  "scaled_exact num_ops p =
     (let x = of_int (sint num_ops) * p / 100;
          t = (if x < 0 then \<lceil>x\<rceil> else \<lfloor>x\<rfloor>)
      in if - (2 ^ 31) \<le> t \<and> t \<le> 2 ^ 31 - 1 then Some (word_of_int t) else None)"

definition op_counts ::
  "(cint \<Rightarrow> 'd \<Rightarrow> cint option) \<Rightarrow> cint \<Rightarrow> 'd OpsPercent \<Rightarrow>
     (cint \<times> cint \<times> cint \<times> cint \<times> cint \<times> cint \<times> cint) option" where
  "op_counts scaled num_ops percents =
     do {
       num_read1 \<leftarrow> scaled num_ops (read1 percents);
       num_write1 \<leftarrow> scaled num_ops (write1 percents);
       num_read2 \<leftarrow> scaled num_ops (read2 percents);
       num_write2 \<leftarrow> scaled num_ops (write2 percents);
       num_read3 \<leftarrow> scaled num_ops (read3 percents);
       num_write3 \<leftarrow> scaled num_ops (write3 percents);
       num_string \<leftarrow> scaled num_ops (string_op percents);
       Some (num_read1, num_write1, num_read2, num_write2, num_read3, num_write3, num_string)
     }"

text \<open>\<open>for (int i = 0; i < n; ++i) ops.push_back(op)\<close>: no copy when \<open>n\<close> is negative.\<close>

definition push_n :: "string list \<Rightarrow> cint \<Rightarrow> string \<Rightarrow> string list" where
  "push_n ops n op = ops @ replicate (nat (sint n)) op"

text \<open>
  \<open>while ((int)ops.size() < num_ops) ops.push_back("string")\<close>. The cast keeps the low 32
  bits of the size and the comparison is signed. The loop always ends: a size whose low 32
  bits are \<open>2^31 - 1\<close> is not below any \<open>int\<close>.
\<close>

function pad_string :: "string list \<Rightarrow> cint \<Rightarrow> string list" where
  "pad_string ops num_ops =
     (if (word_of_nat (length ops) :: cint) <s num_ops then pad_string (ops @ [''string'']) num_ops
      else ops)"
  by pat_completeness auto
termination
proof (relation "measure (\<lambda>(ops, num_ops). unat (2147483647 - (word_of_nat (length ops) :: cint)))")
  show "wf (measure (\<lambda>(ops :: string list, num_ops :: cint).
          unat (2147483647 - (word_of_nat (length ops) :: cint))))"
    by simp
next
  fix ops :: "string list" and num_ops :: cint
  assume a: "(word_of_nat (length ops) :: cint) <s num_ops"
  define w :: cint where "w = word_of_nat (length ops)"
  define x where "x = 2147483647 - w"
  have "sint num_ops \<le> 2147483647"
    using sint_lt [of num_ops] by simp
  with a have "sint w \<noteq> 2147483647" by (simp add: word_sless_alt w_def)
  then have "w \<noteq> 2147483647" by auto
  then have nz: "x \<noteq> 0" by (simp add: x_def)
  then have "unat x \<noteq> 0" by (simp add: unat_eq_zero)
  with unat_minus_one [OF nz] have "unat (x - 1) < unat x" by simp
  moreover have "2147483647 - (w + 1) = x - 1" by (simp add: x_def)
  ultimately have "unat (2147483647 - (w + 1)) < unat (2147483647 - w)" by (simp only: x_def)
  then show "((ops @ [''string''], num_ops), (ops, num_ops))
      \<in> measure (\<lambda>(ops, num_ops). unat (2147483647 - (word_of_nat (length ops) :: cint)))"
    by (simp add: w_def)
qed

declare pad_string.simps [simp del]

definition build_ops :: "cint \<times> cint \<times> cint \<times> cint \<times> cint \<times> cint \<times> cint \<Rightarrow> cint \<Rightarrow> string list" where
  "build_ops counts num_ops =
     (case counts of (num_read1, num_write1, num_read2, num_write2, num_read3, num_write3, num_string) \<Rightarrow>
        (let ops = [];
             ops = push_n ops num_read1 ''read 0'';
             ops = push_n ops num_write1 ''write 0 1'';
             ops = push_n ops num_read2 ''read 1'';
             ops = push_n ops num_write2 ''write 1 1'';
             ops = push_n ops num_read3 ''read 2'';
             ops = push_n ops num_write3 ''write 2 1'';
             ops = push_n ops num_string ''string''
         in pad_string ops num_ops))"

text \<open>\<open>for (const auto& op : ops) fout << op << "\n"\<close>.\<close>

definition write_lines :: "string list \<Rightarrow> string" where
  "write_lines ops = concat (map (\<lambda>op. op @ ''\<newline>'') ops)"

text \<open>The text of the file that \<open>generateFile\<close> writes.\<close>

definition generateFile ::
  "(cint \<Rightarrow> 'd \<Rightarrow> cint option) \<Rightarrow> (string list \<Rightarrow> string list) \<Rightarrow> cint \<Rightarrow> 'd OpsPercent \<Rightarrow>
     error + string" where
  "generateFile scaled shuffle num_ops percents =
     (case op_counts scaled num_ops percents of
        None \<Rightarrow> Inl UndefinedBehaviour
      | Some counts \<Rightarrow> Inr (write_lines (shuffle (build_ops counts num_ops))))"

text \<open>Seven equal percentages; the seven blocks of operations for given counts, before
  padding; and the number of operations in them.\<close>

definition all_percents :: "'d \<Rightarrow> 'd OpsPercent" where
  "all_percents p =
     \<lparr> read1 = p, write1 = p, read2 = p, write2 = p, read3 = p, write3 = p, string_op = p \<rparr>"

definition blocks :: "cint \<times> cint \<times> cint \<times> cint \<times> cint \<times> cint \<times> cint \<Rightarrow> string list" where
  "blocks counts =
     (case counts of (c1, c2, c3, c4, c5, c6, c7) \<Rightarrow>
        replicate (nat (sint c1)) ''read 0'' @ replicate (nat (sint c2)) ''write 0 1'' @
        replicate (nat (sint c3)) ''read 1'' @ replicate (nat (sint c4)) ''write 1 1'' @
        replicate (nat (sint c5)) ''read 2'' @ replicate (nat (sint c6)) ''write 2 1'' @
        replicate (nat (sint c7)) ''string'')"

definition counts_total :: "cint \<times> cint \<times> cint \<times> cint \<times> cint \<times> cint \<times> cint \<Rightarrow> nat" where
  "counts_total counts =
     (case counts of (c1, c2, c3, c4, c5, c6, c7) \<Rightarrow>
        nat (sint c1) + nat (sint c2) + nat (sint c3) + nat (sint c4) + nat (sint c5) + nat (sint c6) +
        nat (sint c7))"

definition op_texts :: "string set" where
  "op_texts = {''read 0'', ''write 0 1'', ''read 1'', ''write 1 1'', ''read 2'', ''write 2 1'', ''string''}"

section \<open>Workers running concurrently\<close>

text \<open>
  \<open>main\<close> starts one, two or three threads that run \<open>executeFile\<close> on the same store. The
  model is an interleaving of steps of the workers; every worker has its own list of calls
  still to make.

  A \<open>std::shared_mutex\<close> is owned by threads: by any number of them in shared mode or by
  one of them in exclusive mode. \<open>lock_shared\<close> waits while a thread owns the mutex in
  exclusive mode; \<open>lock\<close> waits while any thread owns it in any mode.
\<close>

record shared_mutex =
  shared_owners :: "nat set"
  exclusive_owner :: "nat option"

definition free_mutex :: shared_mutex where
  "free_mutex = \<lparr> shared_owners = {}, exclusive_owner = None \<rparr>"

definition can_lock_shared :: "shared_mutex \<Rightarrow> bool" where
  "can_lock_shared m \<longleftrightarrow> exclusive_owner m = None"

definition can_lock :: "shared_mutex \<Rightarrow> bool" where
  "can_lock m \<longleftrightarrow> exclusive_owner m = None \<and> shared_owners m = {}"

definition lock_shared :: "nat \<Rightarrow> shared_mutex \<Rightarrow> shared_mutex" where
  "lock_shared t m = m\<lparr>shared_owners := insert t (shared_owners m)\<rparr>"

definition unlock_shared :: "nat \<Rightarrow> shared_mutex \<Rightarrow> shared_mutex" where
  "unlock_shared t m = m\<lparr>shared_owners := shared_owners m - {t}\<rparr>"

definition lock :: "nat \<Rightarrow> shared_mutex \<Rightarrow> shared_mutex" where
  "lock t m = m\<lparr>exclusive_owner := Some t\<rparr>"

definition unlock :: "shared_mutex \<Rightarrow> shared_mutex" where
  "unlock m = m\<lparr>exclusive_owner := None\<rparr>"

text \<open>
  Where a worker is: between two calls; inside \<open>readField\<close> or \<open>writeField\<close>, holding the
  lock of the field; or inside the string conversion, at the head of the loop for index \<open>i\<close>
  holding no lock, or in the body of the loop holding the shared lock of field \<open>i\<close>. The
  guard of the loop body is a local object of the body, so the lock of field \<open>i\<close> is released
  before the lock of field \<open>i + 1\<close> is taken. The string carried along is the text written so
  far.
\<close>

datatype pc =
    Idle
  | ReadLocked size_t
  | WriteLocked size_t cint
  | SnapLoop nat string
  | SnapLocked nat string

record worker =
  pos :: pc
  todo :: "call list"

record system =
  shared_data :: LabThreadSafeData
  field_mutexes :: "shared_mutex list"
  workers :: "worker list"

text \<open>
  One step of worker \<open>t\<close>. Taking a lock is a step of its own, possible only when the mutex
  admits it (otherwise the worker is blocked). The rest of the critical section, which
  waits for nothing, and the release of the lock at its end are one step. An index out of
  range is undefined behaviour (\<open>Fault\<close>).
\<close>

datatype outcome = Next system | Blocked | Finished | Fault

definition worker_step :: "system \<Rightarrow> nat \<Rightarrow> outcome" where
  "worker_step c t =
     (let ms = field_mutexes c; ws = workers c; w = ws ! t
      in case pos w of
           Idle \<Rightarrow>
             (case todo w of
                [] \<Rightarrow> Finished
              | ReadField i # cs \<Rightarrow>
                  if unat i < length ms then
                    (if can_lock_shared (ms ! unat i) then
                       Next (c\<lparr>field_mutexes := ms[unat i := lock_shared t (ms ! unat i)],
                               workers := ws[t := \<lparr>pos = ReadLocked i, todo = cs\<rparr>]\<rparr>)
                     else Blocked)
                  else Fault
              | WriteField i v # cs \<Rightarrow>
                  if unat i < length ms then
                    (if can_lock (ms ! unat i) then
                       Next (c\<lparr>field_mutexes := ms[unat i := lock t (ms ! unat i)],
                               workers := ws[t := \<lparr>pos = WriteLocked i v, todo = cs\<rparr>]\<rparr>)
                     else Blocked)
                  else Fault
              | Snapshot # cs \<Rightarrow>
                  Next (c\<lparr>workers := ws[t := \<lparr>pos = SnapLoop 0 [], todo = cs\<rparr>]\<rparr>))
         | ReadLocked i \<Rightarrow>
             (case readField (shared_data c) i of
                Inl e \<Rightarrow> Fault
              | Inr (v, d) \<Rightarrow>
                  Next (c\<lparr>shared_data := d,
                          field_mutexes := ms[unat i := unlock_shared t (ms ! unat i)],
                          workers := ws[t := w\<lparr>pos := Idle\<rparr>]\<rparr>))
         | WriteLocked i v \<Rightarrow>
             (case writeField (shared_data c) i v of
                Inl e \<Rightarrow> Fault
              | Inr d \<Rightarrow>
                  Next (c\<lparr>shared_data := d,
                          field_mutexes := ms[unat i := unlock (ms ! unat i)],
                          workers := ws[t := w\<lparr>pos := Idle\<rparr>]\<rparr>))
         | SnapLoop i oss \<Rightarrow>
             if i < length (fields_vec (shared_data c)) then
               (if i < length ms then
                  (if can_lock_shared (ms ! i) then
                     Next (c\<lparr>field_mutexes := ms[i := lock_shared t (ms ! i)],
                             workers := ws[t := w\<lparr>pos := SnapLocked i oss\<rparr>]\<rparr>)
                   else Blocked)
                else Fault)
             else
               (let d = shared_data c;
                    d1 = d\<lparr>string_count := string_count d + 1\<rparr>;
                    d2 = d1\<lparr>total_ops := total_ops d1 + 1\<rparr>
                in Next (c\<lparr>shared_data := d2, workers := ws[t := w\<lparr>pos := Idle\<rparr>]\<rparr>))
         | SnapLocked i oss \<Rightarrow>
             if i < length (fields_vec (shared_data c)) then
               Next (c\<lparr>field_mutexes := ms[i := unlock_shared t (ms ! i)],
                       workers := ws[t := w\<lparr>pos := SnapLoop (i + 1)
                                                   (operator_string_body (fields_vec (shared_data c)) i oss)\<rparr>]\<rparr>)
             else Fault)"

text \<open>
  A run under a schedule: the list of the workers whose turn it is, one after the other. The
  turn of a worker that is blocked or has finished is lost. At the start all mutexes are
  free and every worker is between two calls.
\<close>

fun run :: "system \<Rightarrow> nat list \<Rightarrow> system" where
  "run c [] = c"
| "run c (t # sched) =
     (if t < length (workers c) then
        (case worker_step c t of Next c' \<Rightarrow> run c' sched | _ \<Rightarrow> run c sched)
      else run c sched)"

definition start :: "LabThreadSafeData \<Rightarrow> call list list \<Rightarrow> system" where
  "start s todos =
     \<lparr> shared_data = s,
       field_mutexes = replicate (length (fields_vec s)) free_mutex,
       workers = map (\<lambda>cs. \<lparr>pos = Idle, todo = cs\<rparr>) todos \<rparr>"

definition finished :: "worker \<Rightarrow> bool" where
  "finished w \<longleftrightarrow> pos w = Idle \<and> todo w = []"

definition can_step :: "system \<Rightarrow> nat \<Rightarrow> bool" where
  "can_step c t \<longleftrightarrow> (case worker_step c t of Next c' \<Rightarrow> True | _ \<Rightarrow> False)"

text \<open>A deadlock: some worker has not finished and no worker can make a step.\<close>

definition deadlocked :: "system \<Rightarrow> bool" where
  "deadlocked c \<longleftrightarrow>
     \<not> list_all finished (workers c) \<and> list_all (\<lambda>t. \<not> can_step c t) [0..<length (workers c)]"

text \<open>Which lock a worker holds at a position.\<close>

fun holds_shared :: "pc \<Rightarrow> nat \<Rightarrow> bool" where
  "holds_shared (ReadLocked i) j \<longleftrightarrow> unat i = j"
| "holds_shared (SnapLocked i oss) j \<longleftrightarrow> i = j"
| "holds_shared _ j \<longleftrightarrow> False"

fun holds_exclusive :: "pc \<Rightarrow> nat \<Rightarrow> bool" where
  "holds_exclusive (WriteLocked i v) j \<longleftrightarrow> unat i = j"
| "holds_exclusive _ j \<longleftrightarrow> False"

definition holds_lock :: "pc \<Rightarrow> bool" where
  "holds_lock p \<longleftrightarrow>
     (case p of
        ReadLocked i \<Rightarrow> True
      | WriteLocked i v \<Rightarrow> True
      | SnapLocked i oss \<Rightarrow> True
      | _ \<Rightarrow> False)"

text \<open>
  The invariant of the runs: the vectors keep their length, the indices in the positions and
  in the calls still to make are in range, and the owners recorded in every mutex are
  exactly the workers at a position that holds it.
\<close>

fun pc_in_range :: "nat \<Rightarrow> pc \<Rightarrow> bool" where
  "pc_in_range n (ReadLocked i) \<longleftrightarrow> unat i < n"
| "pc_in_range n (WriteLocked i v) \<longleftrightarrow> unat i < n"
| "pc_in_range n (SnapLocked i oss) \<longleftrightarrow> i < n"
| "pc_in_range n _ \<longleftrightarrow> True"

definition worker_ok :: "nat \<Rightarrow> worker \<Rightarrow> bool" where
  "worker_ok n w \<longleftrightarrow> pc_in_range n (pos w) \<and> list_all (call_in_range n) (todo w)"

definition owners_ok :: "system \<Rightarrow> bool" where
  "owners_ok c \<longleftrightarrow>
     (\<forall>j < length (field_mutexes c). \<forall>t.
        (t \<in> shared_owners (field_mutexes c ! j)) =
          (t < length (workers c) \<and> holds_shared (pos (workers c ! t)) j) \<and>
        (exclusive_owner (field_mutexes c ! j) = Some t) =
          (t < length (workers c) \<and> holds_exclusive (pos (workers c ! t)) j))"

definition sys_inv :: "system \<Rightarrow> bool" where
  "sys_inv c \<longleftrightarrow>
     wf_store (shared_data c) \<and> length (field_mutexes c) = length (fields_vec (shared_data c)) \<and>
     list_all (worker_ok (length (fields_vec (shared_data c)))) (workers c) \<and> owners_ok c"

text \<open>The number of steps that a worker, and all workers together, still have to make.\<close>

fun call_work :: "nat \<Rightarrow> call \<Rightarrow> nat" where
  "call_work n (ReadField i) = 2"
| "call_work n (WriteField i v) = 2"
| "call_work n Snapshot = 2 * n + 2"

fun pos_work :: "nat \<Rightarrow> pc \<Rightarrow> nat" where
  "pos_work n Idle = 0"
| "pos_work n (ReadLocked i) = 1"
| "pos_work n (WriteLocked i v) = 1"
| "pos_work n (SnapLoop i oss) = 2 * (n - i) + 1"
| "pos_work n (SnapLocked i oss) = 2 * (n - i)"

definition worker_work :: "nat \<Rightarrow> worker \<Rightarrow> nat" where
  "worker_work n w = pos_work n (pos w) + sum_list (map (call_work n) (todo w))"

definition work_left :: "system \<Rightarrow> nat" where
  "work_left c = sum_list (map (worker_work (length (fields_vec (shared_data c)))) (workers c))"

section \<open>Properties of the record store\<close>

subsection \<open>Auxiliary facts\<close>

lemma wf_new: "wf_store (new_LabThreadSafeData m)"
  by (simp add: wf_store_def new_LabThreadSafeData_def)

lemma readField_ok:
  "wf_store s \<Longrightarrow> unat i < length (fields_vec s) \<Longrightarrow>
   readField s i = Inr (fields_vec s ! unat i,
     s\<lparr>read_count := (read_count s)[unat i := read_count s ! unat i + 1], total_ops := total_ops s + 1\<rparr>)"
  by (simp add: readField_def wf_store_def)

lemma writeField_ok:
  "wf_store s \<Longrightarrow> unat i < length (fields_vec s) \<Longrightarrow>
   writeField s i v = Inr (s\<lparr>write_count := (write_count s)[unat i := write_count s ! unat i + 1],
      total_ops := total_ops s + 1, fields_vec := (fields_vec s)[unat i := v]\<rparr>)"
  by (simp add: writeField_def wf_store_def)

lemma operator_string_state:
  "snd (operator_string s) = s\<lparr>string_count := string_count s + 1, total_ops := total_ops s + 1\<rparr>"
  by (simp add: operator_string_def)

lemma replicate3: "replicate 3 x = [x, x, x]"
  by (simp add: numeral_3_eq_3)

lemma new3:
  "new_LabThreadSafeData 3 =
     \<lparr>fields_vec = [0, 0, 0], read_count = [0, 0, 0], write_count = [0, 0, 0], string_count = 0,
      total_ops = 0\<rparr>"
  by (simp add: new_LabThreadSafeData_def replicate3)

lemma apply_call_ok:
  assumes "wf_store s" "call_in_range (length (fields_vec s)) c"
  shows "\<exists>s'. apply_call s c = Inr s' \<and> wf_store s' \<and> length (fields_vec s') = length (fields_vec s)"
  using assms by (cases c) (auto simp: readField_ok writeField_ok operator_string_state wf_store_def)

subsection \<open>Construction\<close>

text \<open>
  C8. A store constructed with \<open>N\<close> fields has \<open>N\<close> fields, all equal to 0, \<open>N\<close> read counters
  and \<open>N\<close> write counters, all equal to 0, and the string counter and the counter of all
  operations equal to 0.
\<close>

theorem new_store_all_zero:
  "fields_vec (new_LabThreadSafeData m) = replicate (unat m) 0 \<and>
   read_count (new_LabThreadSafeData m) = replicate (unat m) 0 \<and>
   write_count (new_LabThreadSafeData m) = replicate (unat m) 0 \<and>
   string_count (new_LabThreadSafeData m) = 0 \<and>
   total_ops (new_LabThreadSafeData m) = 0"
  by (simp add: new_LabThreadSafeData_def)

subsection \<open>Reading back what was written\<close>

lemma apply_call_keeps_field:
  assumes "wf_store s" "call_in_range (length (fields_vec s)) c" "\<not> writes_field i c"
    and "apply_call s c = Inr s'"
  shows "fields_vec s' ! unat i = fields_vec s ! unat i"
proof (cases c)
  case (ReadField j)
  with assms show ?thesis by (auto simp: readField_ok)
next
  case (WriteField j v)
  with assms have "j \<noteq> i" by simp
  then have "unat j \<noteq> unat i" by (simp add: word_unat_eq_iff)
  with assms WriteField show ?thesis by (auto simp: writeField_ok)
next
  case Snapshot
  with assms show ?thesis by (auto simp: operator_string_state)
qed

lemma apply_calls_keeps_field:
  assumes "wf_store s" "\<forall>c\<in>set cs. call_in_range (length (fields_vec s)) c \<and> \<not> writes_field i c"
  shows "\<exists>s'. apply_calls s cs = Inr s' \<and> wf_store s' \<and> length (fields_vec s') = length (fields_vec s)
           \<and> fields_vec s' ! unat i = fields_vec s ! unat i"
  using assms
proof (induction cs arbitrary: s)
  case Nil
  then show ?case by simp
next
  case (Cons c cs)
  from Cons.prems obtain s1 where s1: "apply_call s c = Inr s1" "wf_store s1"
      "length (fields_vec s1) = length (fields_vec s)"
    using apply_call_ok [of s c] by auto
  from Cons.prems s1 have k: "fields_vec s1 ! unat i = fields_vec s ! unat i"
    using apply_call_keeps_field [of s c i s1] by simp
  from Cons.prems s1 have "\<forall>c\<in>set cs. call_in_range (length (fields_vec s1)) c \<and> \<not> writes_field i c"
    by simp
  from Cons.IH [OF s1(2) this] s1 k show ?case by auto
qed

text \<open>
  C2. In a store with \<open>N\<close> fields, for an index \<open>i < N\<close> and a value \<open>v\<close>: after
  \<open>writeField(i, v)\<close>, and after any further calls in range none of which writes field \<open>i\<close>
  (in particular after no further call at all), \<open>readField(i)\<close> returns \<open>v\<close>.
\<close>

theorem read_after_write:
  assumes "wf_store s" and "unat i < length (fields_vec s)"
    and "\<forall>c\<in>set cs. call_in_range (length (fields_vec s)) c \<and> \<not> writes_field i c"
  shows "\<exists>s1 s2 s3. writeField s i v = Inr s1 \<and> apply_calls s1 cs = Inr s2 \<and> readField s2 i = Inr (v, s3)"
proof -
  let ?s1 = "s\<lparr>write_count := (write_count s)[unat i := write_count s ! unat i + 1],
      total_ops := total_ops s + 1, fields_vec := (fields_vec s)[unat i := v]\<rparr>"
  have w: "writeField s i v = Inr ?s1" using assms by (simp add: writeField_ok)
  have wf1: "wf_store ?s1" using assms by (simp add: wf_store_def)
  have at1: "fields_vec ?s1 ! unat i = v" using assms by simp
  from assms(3) have "\<forall>c\<in>set cs. call_in_range (length (fields_vec ?s1)) c \<and> \<not> writes_field i c"
    by simp
  from apply_calls_keeps_field [OF wf1 this] obtain s2 where
    s2: "apply_calls ?s1 cs = Inr s2" "wf_store s2" "length (fields_vec s2) = length (fields_vec s)"
      "fields_vec s2 ! unat i = v"
    using at1 by auto
  from s2 assms have "readField s2 i =
      Inr (v, s2\<lparr>read_count := (read_count s2)[unat i := read_count s2 ! unat i + 1],
                 total_ops := total_ops s2 + 1\<rparr>)"
    by (simp add: readField_ok)
  with w s2 show ?thesis by blast
qed

theorem read_after_write_witness:
  "wf_store (new_LabThreadSafeData 3) \<and>
   unat (1 :: size_t) < length (fields_vec (new_LabThreadSafeData 3)) \<and>
   list_all (\<lambda>c. call_in_range (length (fields_vec (new_LabThreadSafeData 3))) c \<and> \<not> writes_field 1 c)
     [ReadField 1, WriteField 0 5, Snapshot] \<and>
   (\<exists>s1 s2 s3. writeField (new_LabThreadSafeData 3) 1 7 = Inr s1 \<and>
      apply_calls s1 [ReadField 1, WriteField 0 5, Snapshot] = Inr s2 \<and> readField s2 1 = Inr (7, s3))"
proof -
  have h1: "wf_store (new_LabThreadSafeData 3)" by (rule wf_new)
  have h2: "unat (1 :: size_t) < length (fields_vec (new_LabThreadSafeData 3))"
    by (simp add: new3)
  have h3: "\<forall>c\<in>set [ReadField 1, WriteField 0 5, Snapshot].
       call_in_range (length (fields_vec (new_LabThreadSafeData 3))) c \<and> \<not> writes_field 1 c"
    by (simp add: new3)
  from read_after_write [OF h1 h2 h3, of 7] h1 h2 h3 show ?thesis
    unfolding list_all_iff by blast
qed

subsection \<open>Frame\<close>

text \<open>
  C9. In a store with \<open>N\<close> fields and for an index \<open>i < N\<close>: \<open>writeField(i, v)\<close> sets field
  \<open>i\<close> to \<open>v\<close> and leaves every other field as it was; \<open>readField(i)\<close> and the string
  conversion leave all fields as they were.
\<close>

theorem fields_frame:
  assumes "wf_store s" and "unat i < length (fields_vec s)"
  shows "(\<exists>s'. writeField s i v = Inr s' \<and> fields_vec s' = (fields_vec s)[unat i := v] \<and>
            fields_vec s' ! unat i = v \<and>
            (\<forall>j. j \<noteq> unat i \<longrightarrow> fields_vec s' ! j = fields_vec s ! j)) \<and>
         (\<exists>x s'. readField s i = Inr (x, s') \<and> fields_vec s' = fields_vec s) \<and>
         fields_vec (snd (operator_string s)) = fields_vec s"
  using assms by (simp add: writeField_ok readField_ok operator_string_state)

theorem fields_frame_witness:
  "wf_store (new_LabThreadSafeData 3) \<and>
   unat (2 :: size_t) < length (fields_vec (new_LabThreadSafeData 3)) \<and>
   (\<exists>s'. writeField (new_LabThreadSafeData 3) 2 9 = Inr s' \<and> fields_vec s' ! unat (2 :: size_t) = 9 \<and>
      (\<forall>j. j \<noteq> unat (2 :: size_t) \<longrightarrow> fields_vec s' ! j = fields_vec (new_LabThreadSafeData 3) ! j)) \<and>
   (\<exists>x s'. readField (new_LabThreadSafeData 3) 2 = Inr (x, s') \<and>
       fields_vec s' = fields_vec (new_LabThreadSafeData 3)) \<and>
   fields_vec (snd (operator_string (new_LabThreadSafeData 3))) = fields_vec (new_LabThreadSafeData 3)"
proof -
  have h1: "wf_store (new_LabThreadSafeData 3)" by (rule wf_new)
  have h2: "unat (2 :: size_t) < length (fields_vec (new_LabThreadSafeData 3))"
    by (simp add: new3)
  from fields_frame [OF h1 h2, of 9] h1 h2 show ?thesis by blast
qed

subsection \<open>The string conversion\<close>

text \<open>
  C10. On a store with no field the string conversion returns the empty string, and it
  still adds one to the string counter and one to the counter of all operations.
\<close>

theorem snapshot_no_fields:
  "fields_vec s = [] \<Longrightarrow>
     operator_string s = ([], s\<lparr>string_count := string_count s + 1, total_ops := total_ops s + 1\<rparr>)"
  by (simp add: operator_string_def operator_string_loop.simps)

theorem snapshot_no_fields_witness:
  "fields_vec (new_LabThreadSafeData 0) = [] \<and>
   operator_string (new_LabThreadSafeData 0) =
     ([], \<lparr>fields_vec = [], read_count = [], write_count = [], string_count = 1, total_ops = 1\<rparr>)"
proof -
  have h: "fields_vec (new_LabThreadSafeData 0) = []"
    by (simp add: new_LabThreadSafeData_def)
  from snapshot_no_fields [OF h] h show ?thesis
    by (simp add: new_LabThreadSafeData_def)
qed

lemma comma_separated_Cons:
  "comma_separated (x # xs) = (if xs = [] then x else x @ '', '' @ comma_separated xs)"
  by (cases xs) simp_all

lemma operator_string_loop_drop:
  "i \<le> length fs \<Longrightarrow> operator_string_loop fs i oss = oss @ comma_separated (map put_int (drop i fs))"
proof (induction fs i oss rule: operator_string_loop.induct)
  case (1 fs i oss)
  show ?case
  proof (cases "i < length fs")
    case True
    then have d: "drop i fs = fs ! i # drop (Suc i) fs"
      by (simp add: Cons_nth_drop_Suc)
    from True have e: "(i \<noteq> size_minus_1 (length fs)) = (drop (Suc i) fs \<noteq> [])"
      by (auto simp: size_minus_1_def)
    from True have le: "i + 1 \<le> length fs" by simp
    show ?thesis
      using True "1.IH" [OF True le]
      by (subst operator_string_loop.simps) (simp add: d e comma_separated_Cons operator_string_body_def)
  next
    case False
    with "1.prems" show ?thesis by (subst operator_string_loop.simps) simp
  qed
qed

text \<open>
  C3. The string conversion returns the values of all fields in index order, each in
  decimal, as a comma-separated list. On a store constructed with 3 fields, after
  \<open>writeField(0, 1)\<close>, \<open>writeField(1, 2)\<close> and \<open>writeField(2, 3)\<close>, also when the executor
  makes these calls for the lines \<open>write 0 1\<close>, \<open>write 1 2\<close> and \<open>write 2 3\<close>, it returns
  exactly \<open>1, 2, 3\<close>.
\<close>

theorem snapshot_renders_fields:
  "fst (operator_string s) = comma_separated (map put_int (fields_vec s)) \<and>
   (\<exists>s1 s2 s3 s4. writeField (new_LabThreadSafeData 3) 0 1 = Inr s1 \<and> writeField s1 1 2 = Inr s2 \<and>
       writeField s2 2 3 = Inr s3 \<and> operator_string s3 = (''1, 2, 3'', s4)) \<and>
   (\<exists>s3. executeFile (new_LabThreadSafeData 3) ''write 0 1\<newline>write 1 2\<newline>write 2 3\<newline>'' = Inr s3 \<and>
       fst (operator_string s3) = ''1, 2, 3'')"
proof (intro conjI)
  have "executeFile (new_LabThreadSafeData 3) ''write 0 1\<newline>write 1 2\<newline>write 2 3\<newline>'' =
          Inr \<lparr>fields_vec = [1, 2, 3], read_count = [0, 0, 0], write_count = [1, 1, 1], string_count = 0,
               total_ops = 3\<rparr>"
    by code_simp
  moreover have "fst (operator_string \<lparr>fields_vec = [1, 2, 3], read_count = [0, 0, 0],
      write_count = [1, 1, 1], string_count = 0, total_ops = 3\<rparr>) = ''1, 2, 3''"
    by code_simp
  ultimately
  show "\<exists>s3. executeFile (new_LabThreadSafeData 3) ''write 0 1\<newline>write 1 2\<newline>write 2 3\<newline>'' = Inr s3 \<and>
       fst (operator_string s3) = ''1, 2, 3''"
    by simp
next
  show "fst (operator_string s) = comma_separated (map put_int (fields_vec s))"
    by (simp add: operator_string_def operator_string_loop_drop)
next
  show "\<exists>s1 s2 s3 s4. writeField (new_LabThreadSafeData 3) 0 1 = Inr s1 \<and> writeField s1 1 2 = Inr s2 \<and>
       writeField s2 2 3 = Inr s3 \<and> operator_string s3 = (''1, 2, 3'', s4)"
    apply (simp add: new3 writeField_def)
    apply (simp add: operator_string_def)
    apply (simp add: operator_string_loop.simps operator_string_body_def size_minus_1_def put_int_def
        nat_digits.simps digit_char_def)
    done
qed

subsection \<open>The counters\<close>

lemma sum_list_bump:
  fixes xs :: "size_t list"
  shows "i < length xs \<Longrightarrow> sum_list (xs[i := xs ! i + 1]) = sum_list xs + 1"
proof (induction xs arbitrary: i)
  case Nil
  then show ?case by simp
next
  case (Cons x xs)
  then show ?case by (cases i) simp_all
qed

lemma apply_call_counters:
  assumes "wf_store s" "call_in_range (length (fields_vec s)) c"
  shows "\<exists>s'. apply_call s c = Inr s' \<and> wf_store s' \<and> length (fields_vec s') = length (fields_vec s) \<and>
           counters_sum s' = counters_sum s + 1 \<and> total_ops s' = total_ops s + 1"
proof (cases c)
  case (ReadField i)
  with assms have "unat i < length (read_count s)" by (simp add: wf_store_def)
  with assms ReadField show ?thesis
    by (simp add: readField_ok counters_sum_def sum_list_bump wf_store_def)
next
  case (WriteField i v)
  with assms have "unat i < length (write_count s)" by (simp add: wf_store_def)
  with assms WriteField show ?thesis
    by (simp add: writeField_ok counters_sum_def sum_list_bump wf_store_def)
next
  case Snapshot
  with assms show ?thesis
    by (simp add: operator_string_state counters_sum_def wf_store_def)
qed

lemma apply_calls_counters:
  assumes "wf_store s" "\<forall>c\<in>set cs. call_in_range (length (fields_vec s)) c"
  shows "\<exists>s'. apply_calls s cs = Inr s' \<and> wf_store s' \<and>
           counters_sum s' = counters_sum s + word_of_nat (length cs) \<and>
           total_ops s' = total_ops s + word_of_nat (length cs)"
  using assms
proof (induction cs arbitrary: s)
  case Nil
  then show ?case by simp
next
  case (Cons c cs)
  from Cons.prems obtain s1 where s1: "apply_call s c = Inr s1" "wf_store s1"
      "length (fields_vec s1) = length (fields_vec s)"
      "counters_sum s1 = counters_sum s + 1" "total_ops s1 = total_ops s + 1"
    using apply_call_counters [of s c] by auto
  from Cons.prems s1 have "\<forall>c\<in>set cs. call_in_range (length (fields_vec s1)) c" by simp
  from Cons.IH [OF s1(2) this] s1 show ?case by (auto simp: algebra_simps)
qed

lemma unat_succ:
  fixes x :: size_t
  shows "unat x + 1 < 2 ^ 64 \<Longrightarrow> unat (x + 1) = unat x + 1"
  by (simp add: unat_word_ariths)

lemma unat_nth_le_sum:
  fixes xs :: "size_t list"
  shows "i < length xs \<Longrightarrow> unat (xs ! i) \<le> sum_list (map unat xs)"
  by (rule member_le_sum_list) simp_all

lemma sum_unat_bump:
  fixes xs :: "size_t list"
  assumes "i < length xs" "sum_list (map unat xs) + 1 < 2 ^ 64"
  shows "sum_list (map unat (xs[i := xs ! i + 1])) = sum_list (map unat xs) + 1"
proof -
  have "unat (xs ! i) + 1 < 2 ^ 64"
    using unat_nth_le_sum [OF assms(1)] assms(2) by simp
  then have u: "unat (xs ! i + 1) = unat (xs ! i) + 1" by (rule unat_succ)
  have "sum_list ((map unat xs)[i := unat (xs ! i) + 1]) = sum_list (map unat xs) + 1"
    using assms(1) unat_nth_le_sum [OF assms(1)] by (simp add: sum_list_update)
  then show ?thesis by (simp add: map_update u)
qed

lemma apply_call_total:
  assumes "wf_store s" "call_in_range (length (fields_vec s)) c" "counters_total s + 1 < 2 ^ 64"
    and "apply_call s c = Inr s'"
  shows "counters_total s' = counters_total s + 1"
proof (cases c)
  case (ReadField i)
  from assms have b: "sum_list (map unat (read_count s)) + 1 < 2 ^ 64"
    by (simp add: counters_total_def)
  from ReadField assms have "unat i < length (read_count s)" by (simp add: wf_store_def)
  from sum_unat_bump [OF this b] ReadField assms show ?thesis
    by (auto simp: readField_ok counters_total_def)
next
  case (WriteField i v)
  from assms have b: "sum_list (map unat (write_count s)) + 1 < 2 ^ 64"
    by (simp add: counters_total_def)
  from WriteField assms have "unat i < length (write_count s)" by (simp add: wf_store_def)
  from sum_unat_bump [OF this b] WriteField assms show ?thesis
    by (auto simp: writeField_ok counters_total_def)
next
  case Snapshot
  from assms have "unat (string_count s) + 1 < 2 ^ 64"
    by (simp add: counters_total_def)
  then have "unat (string_count s + 1) = unat (string_count s) + 1" by (rule unat_succ)
  with Snapshot assms show ?thesis
    by (auto simp: operator_string_state counters_total_def)
qed

lemma apply_calls_total:
  assumes "wf_store s" "\<forall>c\<in>set cs. call_in_range (length (fields_vec s)) c"
    and "counters_total s + length cs < 2 ^ 64" and "apply_calls s cs = Inr s'"
  shows "counters_total s' = counters_total s + length cs"
  using assms
proof (induction cs arbitrary: s)
  case Nil
  then show ?case by simp
next
  case (Cons c cs)
  from Cons.prems obtain s1 where s1: "apply_call s c = Inr s1" "wf_store s1"
      "length (fields_vec s1) = length (fields_vec s)"
    using apply_call_ok [of s c] by auto
  from Cons.prems s1 have t1: "counters_total s1 = counters_total s + 1"
    using apply_call_total [of s c s1] by simp
  from Cons.prems s1 have r: "\<forall>c\<in>set cs. call_in_range (length (fields_vec s1)) c" by simp
  from Cons.prems t1 have b: "counters_total s1 + length cs < 2 ^ 64" by simp
  from Cons.prems s1 have "apply_calls s1 cs = Inr s'" by simp
  from Cons.IH [OF s1(2) r b this] t1 show ?case by simp
qed

text \<open>
  C1. After any sequence of \<open>readField\<close>, \<open>writeField\<close> and string-conversion calls (with
  indices in range) on a newly constructed store, the sum of all read counters plus the sum
  of all write counters plus the string counter equals the counter of all operations: as
  \<open>size_t\<close> values, and, for fewer than \<open>2^64\<close> calls, as natural numbers too, where both
  equal the number of calls. Each call adds one to exactly one counter of its kind and one
  to the counter of all operations, and leaves the other counters as they were.
\<close>

theorem counters_add_up:
  assumes "\<forall>c\<in>set cs. call_in_range (unat m) c"
    and "wf_store s" and "unat i < length (fields_vec s)"
  shows "(\<exists>s'. apply_calls (new_LabThreadSafeData m) cs = Inr s' \<and>
            sum_list (read_count s') + sum_list (write_count s') + string_count s' = total_ops s' \<and>
            (length cs < 2 ^ 64 \<longrightarrow>
               counters_total s' = length cs \<and> unat (total_ops s') = length cs)) \<and>
         (\<exists>x s1. readField s i = Inr (x, s1) \<and>
            read_count s1 = (read_count s)[unat i := read_count s ! unat i + 1] \<and>
            write_count s1 = write_count s \<and> string_count s1 = string_count s \<and>
            total_ops s1 = total_ops s + 1) \<and>
         (\<exists>s1. writeField s i v = Inr s1 \<and>
            write_count s1 = (write_count s)[unat i := write_count s ! unat i + 1] \<and>
            read_count s1 = read_count s \<and> string_count s1 = string_count s \<and>
            total_ops s1 = total_ops s + 1) \<and>
         (read_count (snd (operator_string s)) = read_count s \<and>
          write_count (snd (operator_string s)) = write_count s \<and>
          string_count (snd (operator_string s)) = string_count s + 1 \<and>
          total_ops (snd (operator_string s)) = total_ops s + 1)"
proof -
  let ?n = "new_LabThreadSafeData m"
  have r: "\<forall>c\<in>set cs. call_in_range (length (fields_vec ?n)) c"
    using assms(1) by (simp add: new_LabThreadSafeData_def)
  have z: "counters_sum ?n = 0" "total_ops ?n = 0" "counters_total ?n = 0"
    by (simp_all add: counters_sum_def counters_total_def new_LabThreadSafeData_def sum_list_replicate)
  from apply_calls_counters [OF wf_new r] obtain s' where
    s': "apply_calls ?n cs = Inr s'" "counters_sum s' = word_of_nat (length cs)"
      "total_ops s' = word_of_nat (length cs)"
    using z by auto
  have nat_part: "counters_total s' = length cs \<and> unat (total_ops s') = length cs"
    if b: "length cs < 2 ^ 64"
  proof -
    from b have "counters_total ?n + length cs < 2 ^ 64" by (simp add: z)
    from apply_calls_total [OF wf_new r this s'(1)] have "counters_total s' = length cs"
      by (simp add: z)
    moreover from b have "unat (word_of_nat (length cs) :: size_t) = length cs"
      by (simp add: unat_of_nat)
    ultimately show ?thesis by (simp add: s'(3))
  qed
  have seq: "\<exists>s'. apply_calls ?n cs = Inr s' \<and>
            sum_list (read_count s') + sum_list (write_count s') + string_count s' = total_ops s' \<and>
            (length cs < 2 ^ 64 \<longrightarrow>
               counters_total s' = length cs \<and> unat (total_ops s') = length cs)"
    using s' nat_part by (auto simp: counters_sum_def)
  have rd: "\<exists>x s1. readField s i = Inr (x, s1) \<and>
            read_count s1 = (read_count s)[unat i := read_count s ! unat i + 1] \<and>
            write_count s1 = write_count s \<and> string_count s1 = string_count s \<and>
            total_ops s1 = total_ops s + 1"
    using assms(2,3) by (simp add: readField_ok)
  have wr: "\<exists>s1. writeField s i v = Inr s1 \<and>
            write_count s1 = (write_count s)[unat i := write_count s ! unat i + 1] \<and>
            read_count s1 = read_count s \<and> string_count s1 = string_count s \<and>
            total_ops s1 = total_ops s + 1"
    using assms(2,3) by (simp add: writeField_ok)
  have sn: "read_count (snd (operator_string s)) = read_count s \<and>
          write_count (snd (operator_string s)) = write_count s \<and>
          string_count (snd (operator_string s)) = string_count s + 1 \<and>
          total_ops (snd (operator_string s)) = total_ops s + 1"
    by (simp add: operator_string_state)
  from seq rd wr sn show ?thesis by blast
qed

theorem counters_add_up_witness:
  "list_all (call_in_range (unat (3 :: size_t))) [WriteField 0 4, ReadField 2, Snapshot, ReadField 2] \<and>
   wf_store (new_LabThreadSafeData 3) \<and>
   unat (1 :: size_t) < length (fields_vec (new_LabThreadSafeData 3)) \<and>
   length [WriteField 0 4, ReadField 2, Snapshot, ReadField 2] < (2 :: nat) ^ 64 \<and>
   (\<exists>s'. apply_calls (new_LabThreadSafeData 3) [WriteField 0 4, ReadField 2, Snapshot, ReadField 2] = Inr s' \<and>
      sum_list (read_count s') + sum_list (write_count s') + string_count s' = total_ops s' \<and>
      counters_total s' = 4 \<and> unat (total_ops s') = 4) \<and>
   (\<exists>x s1. readField (new_LabThreadSafeData 3) 1 = Inr (x, s1) \<and>
      total_ops s1 = total_ops (new_LabThreadSafeData 3) + 1) \<and>
   (\<exists>s1. writeField (new_LabThreadSafeData 3) 1 8 = Inr s1 \<and>
      total_ops s1 = total_ops (new_LabThreadSafeData 3) + 1)"
proof -
  let ?cs = "[WriteField 0 4, ReadField 2, Snapshot, ReadField 2]"
  have h1: "\<forall>c\<in>set ?cs. call_in_range (unat (3 :: size_t)) c" by simp
  have h2: "wf_store (new_LabThreadSafeData 3)" by (rule wf_new)
  have h3: "unat (1 :: size_t) < length (fields_vec (new_LabThreadSafeData 3))"
    by (simp add: new3)
  have h4: "length ?cs < (2 :: nat) ^ 64" by simp
  have l: "length ?cs = 4" by simp
  from counters_add_up [OF h1 h2 h3, of 8] h1 h2 h3 h4 show ?thesis
    unfolding l list_all_iff by blast
qed

subsection \<open>Statistics\<close>

lemma printStats_loop_rows:
  assumes "wf_store s"
  shows "printStats_loop s ops i cout =
           Inr (cout @ concat (map (stats_row s ops) [i..<length (fields_vec s)]))"
  using assms
proof (induction s ops i cout rule: printStats_loop.induct)
  case (1 s ops i cout)
  show ?case
  proof (cases "i < length (fields_vec s)")
    case True
    with "1.prems" have r: "i < length (read_count s) \<and> i < length (write_count s)"
      by (simp add: wf_store_def)
    from True have u: "[i..<length (fields_vec s)] = i # [i + 1..<length (fields_vec s)]"
      by (simp add: upt_conv_Cons)
    have e: "[Str ''Field '', Num (word_of_nat i), Str '': '', Dbl (percent (read_count s ! i) ops),
              Str ''% / '', Dbl (percent (write_count s ! i) ops), Str ''%\<newline>''] = stats_row s ops i"
      by (simp add: stats_row_def)
    have "printStats_loop s ops (i + 1) (cout @ stats_row s ops i) =
            Inr ((cout @ stats_row s ops i) @ concat (map (stats_row s ops) [i + 1..<length (fields_vec s)]))"
      using "1.IH" [OF True r refl refl "1.prems"] by (simp only: e)
    moreover have "printStats_loop s ops i cout = printStats_loop s ops (i + 1) (cout @ stats_row s ops i)"
      using True r by (subst printStats_loop.simps) (simp add: stats_row_def Let_def)
    ultimately show ?thesis by (simp add: u)
  next
    case False
    then show ?thesis by (subst printStats_loop.simps) simp
  qed
qed

lemma percent_zero: "ops \<noteq> 0 \<Longrightarrow> percent 0 ops = Finite 0"
  by (simp add: percent_def fdiv_def unsigned_eq_0_iff)

text \<open>
  C7. On a store on which no operation has run the counter of all operations is 0, and
  \<open>printStats\<close> divides by 1 instead: it divides by zero nowhere, and it reports 0 for the
  read and the write percentage of every field and for the percentage of string requests.
\<close>

theorem printStats_fresh_store:
  "total_ops (new_LabThreadSafeData m) = 0 \<and>
   stats_ops (new_LabThreadSafeData m) = 1 \<and>
   printStats (new_LabThreadSafeData m) =
     Inr ([Str ''Field stats (Read%, Write%):\<newline>''] @ concat (map zero_row [0..<unat m]) @
          [Str ''String requests: '', Dbl (Finite 0), Str ''%\<newline>''])"
proof -
  let ?s = "new_LabThreadSafeData m"
  have t: "total_ops ?s = 0" by (simp add: new_LabThreadSafeData_def)
  have o: "stats_ops ?s = 1" by (simp add: stats_ops_def new_LabThreadSafeData_def)
  have "\<forall>i\<in>set [0..<unat m]. stats_row ?s 1 i = zero_row i"
    by (simp add: stats_row_def zero_row_def new_LabThreadSafeData_def percent_zero)
  then have "map (stats_row ?s 1) [0..<unat m] = map zero_row [0..<unat m]"
    by (simp only: map_eq_conv)
  then have "concat (map (stats_row ?s 1) [0..<unat m]) = concat (map zero_row [0..<unat m])"
    by (simp only:)
  moreover have "length (fields_vec ?s) = unat m" by (simp add: new_LabThreadSafeData_def)
  moreover have "string_count ?s = 0" by (simp add: new_LabThreadSafeData_def)
  ultimately show ?thesis
    using printStats_loop_rows [OF wf_new, of m 1 0 "[Str ''Field stats (Read%, Write%):\<newline>'']"] o t
    by (simp add: printStats_def percent_zero)
qed

section \<open>Properties of the executor\<close>









section \<open>Properties of the workload generator\<close>

lemma sint_of_nat_small:
  assumes "n < 2 ^ 31"
  shows "sint (word_of_nat n :: cint) = int n"
proof -
  from assms have u: "int n < 2 ^ 31" by simp
  have l: "- (2 ^ 31) \<le> int n" by simp
  have "sint (word_of_int (int n) :: cint) = signed_take_bit (LENGTH(32) - 1) (int n)"
    by (rule sint_sbintrunc')
  also have "\<dots> = signed_take_bit 31 (int n)" by simp
  also have "\<dots> = int n" using l u by (rule signed_take_bit_int_eq_self)
  finally show ?thesis by simp
qed

lemma pad_string_eq:
  "length ops < 2 ^ 31 \<Longrightarrow>
     pad_string ops num_ops = ops @ replicate (nat (sint num_ops) - length ops) ''string''"
proof (induction ops num_ops rule: pad_string.induct)
  case (1 ops num_ops)
  from "1.prems"
  have c: "((word_of_nat (length ops) :: cint) <s num_ops) = (int (length ops) < sint num_ops)"
    by (simp add: word_sless_alt sint_of_nat_small)
  show ?case
  proof (cases "int (length ops) < sint num_ops")
    case True
    have "sint num_ops < 2 ^ 31" using sint_lt [of num_ops] by simp
    with True have "length (ops @ [''string'']) < 2 ^ 31" by simp
    from "1.IH" [OF _ this] True c
    have "pad_string (ops @ [''string'']) num_ops =
            (ops @ [''string'']) @ replicate (nat (sint num_ops) - length (ops @ [''string''])) ''string''"
      by simp
    moreover from True
    have "nat (sint num_ops) - length ops = Suc (nat (sint num_ops) - length (ops @ [''string'']))"
      by simp
    ultimately show ?thesis using True c
      by (subst pad_string.simps) simp
  next
    case False
    then have "nat (sint num_ops) - length ops = 0" by simp
    with False c show ?thesis by (subst pad_string.simps) simp
  qed
qed

lemma getline_line:
  assumes "CHR ''\<newline>'' \<notin> set op"
  shows "getline (op @ CHR ''\<newline>'' # fin) = Some (op, fin)"
proof -
  from assms have "takeWhile (\<lambda>c. c \<noteq> CHR ''\<newline>'') (op @ CHR ''\<newline>'' # fin) = op"
    by (simp add: takeWhile_append)
  moreover from assms
  have "dropWhile (\<lambda>c. c \<noteq> CHR ''\<newline>'') (op @ CHR ''\<newline>'' # fin) = CHR ''\<newline>'' # fin"
    by (simp add: dropWhile_append)
  ultimately show ?thesis by (simp add: getline_def)
qed

lemma file_lines_write_lines:
  "\<forall>op\<in>set ops. CHR ''\<newline>'' \<notin> set op \<Longrightarrow> file_lines (write_lines ops) = ops"
proof (induction ops)
  case Nil
  show ?case by (subst file_lines.simps) (simp add: write_lines_def getline_def)
next
  case (Cons op ops)
  then have g: "getline (write_lines (op # ops)) = Some (op, write_lines ops)"
    using getline_line [of op "write_lines ops"] by (simp add: write_lines_def)
  from Cons have "file_lines (write_lines ops) = ops" by simp
  with g show ?case by (subst file_lines.simps) simp
qed

lemma op_texts_no_newline: "op \<in> op_texts \<Longrightarrow> CHR ''\<newline>'' \<notin> set op"
  by (auto simp: op_texts_def)

lemma length_blocks: "length (blocks counts) = counts_total counts"
  by (simp add: blocks_def counts_total_def split: prod.splits)

lemma set_blocks: "set (blocks counts) \<subseteq> op_texts"
  by (auto simp: blocks_def op_texts_def split: prod.splits)

lemma build_ops_eq:
  assumes "counts_total counts < 2 ^ 31"
  shows "build_ops counts num_ops =
           blocks counts @ replicate (nat (sint num_ops) - counts_total counts) ''string''"
proof -
  obtain c1 c2 c3 c4 c5 c6 c7 where c: "counts = (c1, c2, c3, c4, c5, c6, c7)"
    by (cases counts) auto
  have b: "build_ops counts num_ops = pad_string (blocks counts) num_ops"
    by (simp add: c build_ops_def blocks_def push_n_def)
  from assms have "length (blocks counts) < 2 ^ 31" by (simp add: length_blocks)
  from pad_string_eq [OF this] b show ?thesis by (simp add: length_blocks)
qed

lemma generateFile_lines:
  assumes perm: "\<forall>xs. mset (shuffle xs) = mset xs"
    and counts: "op_counts scaled num_ops percents = Some counts"
    and small: "counts_total counts < 2 ^ 31"
  shows "\<exists>content. generateFile scaled shuffle num_ops percents = Inr content \<and>
           mset (file_lines content) =
             mset (blocks counts) + replicate_mset (nat (sint num_ops) - counts_total counts) ''string'' \<and>
           length (file_lines content) = max (counts_total counts) (nat (sint num_ops))"
proof -
  let ?ops = "build_ops counts num_ops"
  have g: "generateFile scaled shuffle num_ops percents = Inr (write_lines (shuffle ?ops))"
    by (simp add: generateFile_def counts)
  have e: "?ops = blocks counts @ replicate (nat (sint num_ops) - counts_total counts) ''string''"
    by (rule build_ops_eq [OF small])
  have "set ?ops \<subseteq> op_texts"
    using set_blocks [of counts] by (auto simp: e op_texts_def)
  moreover from perm have m: "mset (shuffle ?ops) = mset ?ops" by simp
  then have "set (shuffle ?ops) = set ?ops" by (rule mset_eq_setD)
  ultimately have "\<forall>op\<in>set (shuffle ?ops). CHR ''\<newline>'' \<notin> set op"
    by (auto dest: op_texts_no_newline)
  then have f: "file_lines (write_lines (shuffle ?ops)) = shuffle ?ops"
    by (rule file_lines_write_lines)
  from m have l: "length (shuffle ?ops) = length ?ops" by (rule mset_eq_length)
  have "length ?ops = max (counts_total counts) (nat (sint num_ops))"
    by (simp add: e length_blocks)
  with g f m l show ?thesis by (simp add: e)
qed

lemma counts_100_1429:
  "op_counts scaled_exact 100 (all_percents (1429 / 100)) = Some (14, 14, 14, 14, 14, 14, 14)"
  by code_simp

lemma counts_100000_1429:
  "op_counts scaled_exact 100000 (all_percents (1429 / 100)) =
     Some (14290, 14290, 14290, 14290, 14290, 14290, 14290)"
  by code_simp

lemma counts_100_20:
  "op_counts scaled_exact 100 (all_percents 20) = Some (20, 20, 20, 20, 20, 20, 20)"
  by code_simp

text \<open>
  C5 (as amended). Let the seven conversions to \<open>int\<close> be defined, let the counts sum to less
  than \<open>2^31\<close>, and let the shuffle permute its argument. Then the generated file has as many
  lines as the larger of \<open>num_ops\<close> and the sum of the seven counts (a negative count
  counting as 0): exactly \<open>num_ops\<close> lines when the counts sum to at most \<open>num_ops\<close>. Its lines
  are the seven blocks of operations and, for the shortfall, further \<open>string\<close> lines, in some
  order. With \<open>num_ops = 100\<close> and seven percentages 14.29 (each count is 14) the file has
  exactly 100 lines, 16 of them \<open>string\<close>.
\<close>

theorem generateFile_length:
  assumes "\<forall>xs. mset (shuffle xs) = mset xs"
    and "op_counts scaled num_ops percents = Some counts"
    and "counts_total counts < 2 ^ 31"
  shows "(\<exists>content. generateFile scaled shuffle num_ops percents = Inr content \<and>
            length (file_lines content) = max (counts_total counts) (nat (sint num_ops)) \<and>
            (counts_total counts \<le> nat (sint num_ops) \<longrightarrow>
               length (file_lines content) = nat (sint num_ops)) \<and>
            mset (file_lines content) =
              mset (blocks counts) +
              replicate_mset (nat (sint num_ops) - counts_total counts) ''string'') \<and>
         (\<exists>content. generateFile scaled_exact shuffle 100 (all_percents (1429 / 100)) = Inr content \<and>
            length (file_lines content) = 100 \<and>
            count (mset (file_lines content)) ''string'' = 16)"
proof
  from generateFile_lines [OF assms]
  show "\<exists>content. generateFile scaled shuffle num_ops percents = Inr content \<and>
            length (file_lines content) = max (counts_total counts) (nat (sint num_ops)) \<and>
            (counts_total counts \<le> nat (sint num_ops) \<longrightarrow>
               length (file_lines content) = nat (sint num_ops)) \<and>
            mset (file_lines content) =
              mset (blocks counts) +
              replicate_mset (nat (sint num_ops) - counts_total counts) ''string''"
    by (auto simp: max_def)
next
  let ?c = "(14, 14, 14, 14, 14, 14, 14) :: cint \<times> cint \<times> cint \<times> cint \<times> cint \<times> cint \<times> cint"
  have t: "counts_total ?c = 98" by (simp add: counts_total_def)
  then have small: "counts_total ?c < 2 ^ 31" by simp
  have b: "count (mset (blocks ?c)) ''string'' = 14" by (simp add: blocks_def)
  from generateFile_lines [OF assms(1) counts_100_1429 small] obtain content where
    c: "generateFile scaled_exact shuffle 100 (all_percents (1429 / 100)) = Inr content"
      "mset (file_lines content) =
         mset (blocks ?c) + replicate_mset (nat (sint (100 :: cint)) - counts_total ?c) ''string''"
      "length (file_lines content) = max (counts_total ?c) (nat (sint (100 :: cint)))"
    by blast
  from c(3) have "length (file_lines content) = 100" by (simp add: t)
  moreover from c(2) have "count (mset (file_lines content)) ''string'' = 16"
    by (simp add: t b)
  ultimately show "\<exists>content. generateFile scaled_exact shuffle 100 (all_percents (1429 / 100)) = Inr content \<and>
            length (file_lines content) = 100 \<and>
            count (mset (file_lines content)) ''string'' = 16"
    using c(1) by blast
qed

theorem generateFile_length_witness:
  "(\<forall>xs :: string list. mset (rev xs) = mset xs) \<and>
   op_counts scaled_exact 10 (all_percents 10) = Some (1, 1, 1, 1, 1, 1, 1) \<and>
   counts_total (1, 1, 1, 1, 1, 1, 1) < 2 ^ 31 \<and>
   counts_total (1, 1, 1, 1, 1, 1, 1) \<le> nat (sint (10 :: cint)) \<and>
   (\<exists>content. generateFile scaled_exact rev 10 (all_percents 10) = Inr content \<and>
      length (file_lines content) = nat (sint (10 :: cint)) \<and>
      mset (file_lines content) =
        mset (blocks (1, 1, 1, 1, 1, 1, 1)) +
        replicate_mset (nat (sint (10 :: cint)) - counts_total (1, 1, 1, 1, 1, 1, 1)) ''string'')"
proof -
  have h1: "\<forall>xs :: string list. mset (rev xs) = mset xs" by simp
  have h2: "op_counts scaled_exact 10 (all_percents 10) = Some (1, 1, 1, 1, 1, 1, 1)"
    by code_simp
  have h3: "counts_total (1, 1, 1, 1, 1, 1, 1) < 2 ^ 31" by (simp add: counts_total_def)
  have h4: "counts_total (1, 1, 1, 1, 1, 1, 1) \<le> nat (sint (10 :: cint))"
    by (simp add: counts_total_def)
  from generateFile_length [OF h1 h2 h3] h1 h2 h3 h4 show ?thesis by blast
qed

text \<open>
  Against C5 as it was stated: the file is longer than \<open>num_ops\<close> when the counts sum to
  more. With \<open>num_ops = 100\<close> and seven percentages 20 each count is 20 and the file has 140
  lines. With the parameters of \<open>main\<close> for the second workload, \<open>num_ops = 100000\<close> and seven
  percentages 14.29, each count is 14290 and the file has 100030 lines. (The shuffle that
  leaves the order as it is is one of the possible outcomes; the number of lines is the same
  for every other.)
\<close>

theorem generateFile_overshoot:
  "generateFile scaled_exact id 100 (all_percents 20) =
     Inr (write_lines (build_ops (20, 20, 20, 20, 20, 20, 20) 100)) \<and>
   length (file_lines (write_lines (build_ops (20, 20, 20, 20, 20, 20, 20) 100))) = 140 \<and>
   generateFile scaled_exact id 100000 (all_percents (1429 / 100)) =
     Inr (write_lines (build_ops (14290, 14290, 14290, 14290, 14290, 14290, 14290) 100000)) \<and>
   length (file_lines (write_lines (build_ops (14290, 14290, 14290, 14290, 14290, 14290, 14290) 100000))) =
     100030"
proof -
  have p: "\<forall>xs :: string list. mset (id xs) = mset xs" by simp
  let ?a = "(20, 20, 20, 20, 20, 20, 20) :: cint \<times> cint \<times> cint \<times> cint \<times> cint \<times> cint \<times> cint"
  let ?b = "(14290, 14290, 14290, 14290, 14290, 14290, 14290) ::
              cint \<times> cint \<times> cint \<times> cint \<times> cint \<times> cint \<times> cint"
  have ta: "counts_total ?a = 140" by (simp add: counts_total_def)
  have tb: "counts_total ?b = 100030" by (simp add: counts_total_def)
  have ga: "generateFile scaled_exact id 100 (all_percents 20) = Inr (write_lines (build_ops ?a 100))"
    by (simp add: generateFile_def counts_100_20)
  have gb: "generateFile scaled_exact id 100000 (all_percents (1429 / 100)) =
              Inr (write_lines (build_ops ?b 100000))"
    by (simp add: generateFile_def counts_100000_1429)
  have sa: "counts_total ?a < 2 ^ 31" by (simp add: ta)
  have sb: "counts_total ?b < 2 ^ 31" by (simp add: tb)
  from generateFile_lines [OF p counts_100_20 sa] obtain ca where
    ca: "generateFile scaled_exact id 100 (all_percents 20) = Inr ca"
      "length (file_lines ca) = max (counts_total ?a) (nat (sint (100 :: cint)))"
    by blast
  from ca(1) ga have "ca = write_lines (build_ops ?a 100)" by simp
  with ca(2) have la: "length (file_lines (write_lines (build_ops ?a 100))) = 140"
    by (simp add: ta)
  from generateFile_lines [OF p counts_100000_1429 sb] obtain cb where
    cb: "generateFile scaled_exact id 100000 (all_percents (1429 / 100)) = Inr cb"
      "length (file_lines cb) = max (counts_total ?b) (nat (sint (100000 :: cint)))"
    by blast
  from cb(1) gb have "cb = write_lines (build_ops ?b 100000)" by simp
  with cb(2) have lb: "length (file_lines (write_lines (build_ops ?b 100000))) = 100030"
    by (simp add: tb)
  from ga gb la lb show ?thesis by blast
qed

section \<open>Properties of concurrent runs\<close>

lemma sys_inv_start:
  assumes "wf_store s" "list_all (list_all (call_in_range (length (fields_vec s)))) todos"
  shows "sys_inv (start s todos)"
  using assms
  by (auto simp: sys_inv_def start_def owners_ok_def worker_ok_def free_mutex_def list_all_iff)

lemma holds_lock_iff: "holds_lock p \<longleftrightarrow> (\<exists>j. holds_shared p j) \<or> (\<exists>j. holds_exclusive p j)"
  by (cases p) (auto simp: holds_lock_def)

lemma owners_ok_lock_shared:
  assumes "owners_ok c" "t < length (workers c)" "j < length (field_mutexes c)"
    and "\<not> holds_lock (pos (workers c ! t))"
    and "\<forall>k. holds_shared (pos w') k = (k = j)" "\<forall>k. \<not> holds_exclusive (pos w') k"
  shows "owners_ok (c\<lparr>field_mutexes := (field_mutexes c)[j := lock_shared t (field_mutexes c ! j)],
                       workers := (workers c)[t := w']\<rparr>)"
  using assms
  by (auto simp: owners_ok_def nth_list_update lock_shared_def holds_lock_iff)

lemma owners_ok_unlock_shared:
  assumes "owners_ok c" "t < length (workers c)" "j < length (field_mutexes c)"
    and "\<forall>k. holds_shared (pos (workers c ! t)) k = (k = j)"
    and "\<forall>k. \<not> holds_exclusive (pos (workers c ! t)) k"
    and "\<not> holds_lock (pos w')"
  shows "owners_ok (c\<lparr>shared_data := d, field_mutexes := (field_mutexes c)[j := unlock_shared t (field_mutexes c ! j)],
                       workers := (workers c)[t := w']\<rparr>)"
  using assms
  by (auto simp: owners_ok_def nth_list_update unlock_shared_def holds_lock_iff)

lemma owners_ok_lock:
  assumes "owners_ok c" "t < length (workers c)" "j < length (field_mutexes c)"
    and "\<not> holds_lock (pos (workers c ! t))" "can_lock (field_mutexes c ! j)"
    and "\<forall>k. holds_exclusive (pos w') k = (k = j)" "\<forall>k. \<not> holds_shared (pos w') k"
  shows "owners_ok (c\<lparr>field_mutexes := (field_mutexes c)[j := lock t (field_mutexes c ! j)],
                       workers := (workers c)[t := w']\<rparr>)"
  using assms
  by (auto simp: owners_ok_def nth_list_update lock_def can_lock_def holds_lock_iff)

lemma owners_ok_unlock:
  assumes "owners_ok c" "t < length (workers c)" "j < length (field_mutexes c)"
    and "\<forall>k. holds_exclusive (pos (workers c ! t)) k = (k = j)"
    and "\<forall>k. \<not> holds_shared (pos (workers c ! t)) k"
    and "\<not> holds_lock (pos w')"
  shows "owners_ok (c\<lparr>shared_data := d, field_mutexes := (field_mutexes c)[j := unlock (field_mutexes c ! j)],
                       workers := (workers c)[t := w']\<rparr>)"
proof -
  from assms have own: "exclusive_owner (field_mutexes c ! j) = Some t"
    by (simp add: owners_ok_def)
  have "\<not> holds_exclusive (pos (workers c ! u)) j" if "u < length (workers c)" "u \<noteq> t" for u
  proof
    assume "holds_exclusive (pos (workers c ! u)) j"
    with assms(1,3) that have "exclusive_owner (field_mutexes c ! j) = Some u"
      by (simp add: owners_ok_def)
    with own that show False by simp
  qed
  with assms show ?thesis
    by (auto simp: owners_ok_def nth_list_update unlock_def holds_lock_iff)
qed

lemma owners_ok_move:
  assumes "owners_ok c" "t < length (workers c)"
    and "\<not> holds_lock (pos (workers c ! t))" "\<not> holds_lock (pos w')"
  shows "owners_ok (c\<lparr>shared_data := d, workers := (workers c)[t := w']\<rparr>)"
  using assms
  by (auto simp: owners_ok_def nth_list_update holds_lock_iff)

lemma sys_inv_step:
  assumes inv: "sys_inv c" and t: "t < length (workers c)" and step: "worker_step c t = Next c'"
  shows "sys_inv c'"
proof -
  let ?ms = "field_mutexes c" and ?ws = "workers c" and ?w = "workers c ! t"
  let ?n = "length (fields_vec (shared_data c))"
  from inv have wf: "wf_store (shared_data c)" and len: "length ?ms = ?n"
    and oks: "list_all (worker_ok ?n) ?ws" and own: "owners_ok c"
    by (simp_all add: sys_inv_def)
  from oks t have wok: "worker_ok ?n ?w" by (simp add: list_all_length)
  have keep: "list_all (worker_ok ?n) (?ws[t := w'])" if "worker_ok ?n w'" for w'
    using oks that t by (auto simp: list_all_length nth_list_update)
  show ?thesis
  proof (cases "pos ?w")
    case Idle
    show ?thesis
    proof (cases "todo ?w")
      case Nil
      with Idle step show ?thesis by (simp add: worker_step_def Let_def)
    next
      case (Cons a cs)
      from wok Cons have ar: "call_in_range ?n a" and csr: "list_all (call_in_range ?n) cs"
        by (simp_all add: worker_ok_def)
      show ?thesis
      proof (cases a)
        case (ReadField i)
        with ar have i: "unat i < ?n" by simp
        let ?w' = "\<lparr>pos = ReadLocked i, todo = cs\<rparr>"
        from step Idle Cons ReadField i len
        have c': "c' = c\<lparr>field_mutexes := ?ms[unat i := lock_shared t (?ms ! unat i)],
                             workers := ?ws[t := ?w']\<rparr>"
          by (simp add: worker_step_def Let_def split: if_splits)
        have "worker_ok ?n ?w'"
          using i csr by (simp add: worker_ok_def)
        from keep [OF this] wf len i
          owners_ok_lock_shared [OF own t, where j = "unat i" and w' = ?w'] Idle
        show ?thesis by (auto simp: sys_inv_def c' holds_lock_def)
      next
        case (WriteField i v)
        with ar have i: "unat i < ?n" by simp
        let ?w' = "\<lparr>pos = WriteLocked i v, todo = cs\<rparr>"
        from step Idle Cons WriteField i len
        have c': "c' = c\<lparr>field_mutexes := ?ms[unat i := lock t (?ms ! unat i)],
                             workers := ?ws[t := ?w']\<rparr>"
          and cl: "can_lock (?ms ! unat i)"
          by (simp_all add: worker_step_def Let_def split: if_splits)
        have "worker_ok ?n ?w'"
          using i csr by (simp add: worker_ok_def)
        from keep [OF this] wf len i cl
          owners_ok_lock [OF own t, where j = "unat i" and w' = ?w'] Idle
        show ?thesis by (auto simp: sys_inv_def c' holds_lock_def)
      next
        case Snapshot
        let ?w' = "\<lparr>pos = SnapLoop 0 [], todo = cs\<rparr>"
        from step Idle Cons Snapshot
        have c': "c' = c\<lparr>shared_data := shared_data c, workers := ?ws[t := ?w']\<rparr>"
          by (simp add: worker_step_def Let_def)
        have "worker_ok ?n ?w'"
          using csr by (simp add: worker_ok_def)
        from keep [OF this] wf len
          owners_ok_move [OF own t, where w' = ?w' and d = "shared_data c"] Idle
        show ?thesis by (auto simp: sys_inv_def c' holds_lock_def)
      qed
    qed
  next
    case (ReadLocked i)
    with wok have i: "unat i < ?n" and csr: "list_all (call_in_range ?n) (todo ?w)"
      by (simp_all add: worker_ok_def)
    let ?d = "(shared_data c)\<lparr>read_count := (read_count (shared_data c))[unat i := read_count (shared_data c) ! unat i + 1],
                total_ops := total_ops (shared_data c) + 1\<rparr>"
    let ?w' = "?w\<lparr>pos := Idle\<rparr>"
    from step ReadLocked i wf
    have c': "c' = c\<lparr>shared_data := ?d, field_mutexes := ?ms[unat i := unlock_shared t (?ms ! unat i)],
                         workers := ?ws[t := ?w']\<rparr>"
      by (simp add: worker_step_def Let_def readField_ok)
    have "worker_ok ?n ?w'"
      using csr by (simp add: worker_ok_def)
    from keep [OF this] wf len i
      owners_ok_unlock_shared [OF own t, where j = "unat i" and w' = ?w' and d = ?d] ReadLocked
    show ?thesis by (auto simp: sys_inv_def c' holds_lock_def wf_store_def)
  next
    case (WriteLocked i v)
    with wok have i: "unat i < ?n" and csr: "list_all (call_in_range ?n) (todo ?w)"
      by (simp_all add: worker_ok_def)
    let ?d = "(shared_data c)\<lparr>write_count := (write_count (shared_data c))[unat i := write_count (shared_data c) ! unat i + 1],
                total_ops := total_ops (shared_data c) + 1, fields_vec := (fields_vec (shared_data c))[unat i := v]\<rparr>"
    let ?w' = "?w\<lparr>pos := Idle\<rparr>"
    from step WriteLocked i wf
    have c': "c' = c\<lparr>shared_data := ?d, field_mutexes := ?ms[unat i := unlock (?ms ! unat i)],
                         workers := ?ws[t := ?w']\<rparr>"
      by (simp add: worker_step_def Let_def writeField_ok)
    have "worker_ok ?n ?w'"
      using csr by (simp add: worker_ok_def)
    from keep [OF this] wf len i
      owners_ok_unlock [OF own t, where j = "unat i" and w' = ?w' and d = ?d] WriteLocked
    show ?thesis by (auto simp: sys_inv_def c' holds_lock_def wf_store_def)
  next
    case (SnapLoop i oss)
    with wok have csr: "list_all (call_in_range ?n) (todo ?w)"
      by (simp add: worker_ok_def)
    show ?thesis
    proof (cases "i < ?n")
      case True
      let ?w' = "?w\<lparr>pos := SnapLocked i oss\<rparr>"
      from step SnapLoop True len
      have c': "c' = c\<lparr>field_mutexes := ?ms[i := lock_shared t (?ms ! i)],
                           workers := ?ws[t := ?w']\<rparr>"
        by (simp add: worker_step_def Let_def split: if_splits)
      have "worker_ok ?n ?w'"
        using True csr by (simp add: worker_ok_def)
      from keep [OF this] wf len True
        owners_ok_lock_shared [OF own t, where j = i and w' = ?w'] SnapLoop
      show ?thesis by (auto simp: sys_inv_def c' holds_lock_def)
    next
      case False
      let ?d = "(shared_data c)\<lparr>string_count := string_count (shared_data c) + 1, total_ops := total_ops (shared_data c) + 1\<rparr>"
      let ?w' = "?w\<lparr>pos := Idle\<rparr>"
      from step SnapLoop False
      have c': "c' = c\<lparr>shared_data := ?d, workers := ?ws[t := ?w']\<rparr>"
        by (simp add: worker_step_def Let_def operator_string_state)
      have "worker_ok ?n ?w'"
        using csr by (simp add: worker_ok_def)
      from keep [OF this] wf len
        owners_ok_move [OF own t, where w' = ?w' and d = ?d] SnapLoop
      show ?thesis by (auto simp: sys_inv_def c' holds_lock_def wf_store_def)
    qed
  next
    case (SnapLocked i oss)
    with wok have i: "i < ?n" and csr: "list_all (call_in_range ?n) (todo ?w)"
      by (simp_all add: worker_ok_def)
    let ?w' = "?w\<lparr>pos := SnapLoop (i + 1) (operator_string_body (fields_vec (shared_data c)) i oss)\<rparr>"
    from step SnapLocked i
    have c': "c' = c\<lparr>shared_data := shared_data c, field_mutexes := ?ms[i := unlock_shared t (?ms ! i)],
                         workers := ?ws[t := ?w']\<rparr>"
      by (simp add: worker_step_def Let_def)
    have "worker_ok ?n ?w'"
      using csr by (simp add: worker_ok_def)
    from keep [OF this] wf len i
      owners_ok_unlock_shared [OF own t, where j = i and w' = ?w' and d = "shared_data c"] SnapLocked
    show ?thesis by (auto simp: sys_inv_def c' holds_lock_def)
  qed
qed

lemma sys_inv_run: "sys_inv c \<Longrightarrow> sys_inv (run c sched)"
proof (induction sched arbitrary: c)
  case Nil
  then show ?case by simp
next
  case (Cons t sched)
  show ?case
  proof (cases "t < length (workers c)")
    case True
    show ?thesis
    proof (cases "worker_step c t")
      case (Next c')
      with Cons.prems True have "sys_inv c'" by (auto intro: sys_inv_step)
      with Cons.IH [of c'] Next True show ?thesis by simp
    qed (use Cons True in simp_all)
  next
    case False
    with Cons show ?thesis by simp
  qed
qed

lemma holder_can_step:
  assumes inv: "sys_inv c" and t: "t < length (workers c)" and h: "holds_lock (pos (workers c ! t))"
  shows "can_step c t"
proof -
  let ?w = "workers c ! t" and ?n = "length (fields_vec (shared_data c))"
  from inv t have wf: "wf_store (shared_data c)" and wok: "worker_ok ?n ?w"
    by (simp_all add: sys_inv_def list_all_length)
  show ?thesis
  proof (cases "pos ?w")
    case (ReadLocked i)
    with wok have "unat i < ?n" by (simp add: worker_ok_def)
    with wf ReadLocked show ?thesis
      by (simp add: can_step_def worker_step_def Let_def readField_ok)
  next
    case (WriteLocked i v)
    with wok have "unat i < ?n" by (simp add: worker_ok_def)
    with wf WriteLocked show ?thesis
      by (simp add: can_step_def worker_step_def Let_def writeField_ok)
  next
    case (SnapLocked i oss)
    with wok have "i < ?n" by (simp add: worker_ok_def)
    with SnapLocked show ?thesis
      by (simp add: can_step_def worker_step_def Let_def)
  qed (use h in \<open>simp_all add: holds_lock_def\<close>)
qed

lemma no_holder_all_free:
  assumes inv: "sys_inv c" and nh: "\<forall>t<length (workers c). \<not> holds_lock (pos (workers c ! t))"
    and j: "j < length (field_mutexes c)"
  shows "field_mutexes c ! j = free_mutex"
proof -
  from inv have own: "owners_ok c" by (simp add: sys_inv_def)
  have "shared_owners (field_mutexes c ! j) = {}"
  proof (rule ccontr)
    assume "shared_owners (field_mutexes c ! j) \<noteq> {}"
    then obtain t where "t \<in> shared_owners (field_mutexes c ! j)" by auto
    with own j have "t < length (workers c)" "holds_shared (pos (workers c ! t)) j"
      by (simp_all add: owners_ok_def)
    with nh show False by (auto simp: holds_lock_iff)
  qed
  moreover have "exclusive_owner (field_mutexes c ! j) = None"
  proof (rule ccontr)
    assume "exclusive_owner (field_mutexes c ! j) \<noteq> None"
    then obtain t where "exclusive_owner (field_mutexes c ! j) = Some t" by auto
    with own j have "t < length (workers c)" "holds_exclusive (pos (workers c ! t)) j"
      by (simp_all add: owners_ok_def)
    with nh show False by (auto simp: holds_lock_iff)
  qed
  ultimately show ?thesis by (simp add: free_mutex_def)
qed

lemma free_can_step:
  assumes inv: "sys_inv c" and t: "t < length (workers c)"
    and free: "\<forall>j<length (field_mutexes c). field_mutexes c ! j = free_mutex"
    and nf: "\<not> finished (workers c ! t)" and nh: "\<not> holds_lock (pos (workers c ! t))"
  shows "can_step c t"
proof -
  let ?w = "workers c ! t" and ?n = "length (fields_vec (shared_data c))"
  from inv t have len: "length (field_mutexes c) = ?n" and wok: "worker_ok ?n ?w"
    by (simp_all add: sys_inv_def list_all_length)
  show ?thesis
  proof (cases "pos ?w")
    case Idle
    with nf obtain a cs where td: "todo ?w = a # cs" by (cases "todo ?w") (auto simp: finished_def)
    with wok have ar: "call_in_range ?n a" by (simp add: worker_ok_def)
    show ?thesis
    proof (cases a)
      case (ReadField i)
      with ar len free have "unat i < length (field_mutexes c)" "field_mutexes c ! unat i = free_mutex"
        by simp_all
      with Idle td ReadField show ?thesis
        by (simp add: can_step_def worker_step_def Let_def can_lock_shared_def free_mutex_def)
    next
      case (WriteField i v)
      with ar len free have "unat i < length (field_mutexes c)" "field_mutexes c ! unat i = free_mutex"
        by simp_all
      with Idle td WriteField show ?thesis
        by (simp add: can_step_def worker_step_def Let_def can_lock_def free_mutex_def)
    next
      case Snapshot
      with Idle td show ?thesis by (simp add: can_step_def worker_step_def Let_def)
    qed
  next
    case (SnapLoop i oss)
    show ?thesis
    proof (cases "i < ?n")
      case True
      with len free have "i < length (field_mutexes c)" "field_mutexes c ! i = free_mutex" by simp_all
      with SnapLoop True show ?thesis
        by (simp add: can_step_def worker_step_def Let_def can_lock_shared_def free_mutex_def)
    next
      case False
      with SnapLoop show ?thesis by (simp add: can_step_def worker_step_def Let_def)
    qed
  qed (use nh in \<open>simp_all add: holds_lock_def\<close>)
qed

lemma sys_inv_progress:
  assumes "sys_inv c"
  shows "list_all finished (workers c) \<or>
         (\<exists>t<length (workers c). holds_lock (pos (workers c ! t)) \<and> can_step c t) \<or>
         (list_all (\<lambda>m. m = free_mutex) (field_mutexes c) \<and>
          (\<exists>t<length (workers c). \<not> finished (workers c ! t)) \<and>
          (\<forall>t<length (workers c). \<not> finished (workers c ! t) \<longrightarrow> can_step c t))"
proof (cases "\<exists>t<length (workers c). holds_lock (pos (workers c ! t))")
  case True
  with assms show ?thesis by (auto intro: holder_can_step)
next
  case False
  then have nh: "\<forall>t<length (workers c). \<not> holds_lock (pos (workers c ! t))" by simp
  with assms have free: "\<forall>j<length (field_mutexes c). field_mutexes c ! j = free_mutex"
    by (auto intro: no_holder_all_free)
  then have fl: "list_all (\<lambda>m. m = free_mutex) (field_mutexes c)" by (simp add: list_all_length)
  show ?thesis
  proof (cases "list_all finished (workers c)")
    case True
    then show ?thesis by simp
  next
    case nall: False
    then have ex: "\<exists>t<length (workers c). \<not> finished (workers c ! t)"
      by (auto simp: list_all_length)
    have "\<forall>t<length (workers c). \<not> finished (workers c ! t) \<longrightarrow> can_step c t"
      using assms free nh by (auto intro: free_can_step)
    with fl ex show ?thesis by blast
  qed
qed


lemma sum_list_map_update_less:
  fixes f :: "'a \<Rightarrow> nat"
  assumes "t < length xs" "f y < f (xs ! t)"
  shows "sum_list (map f (xs[t := y])) < sum_list (map f xs)"
  using assms
proof (induction xs arbitrary: t)
  case Nil
  then show ?case by simp
next
  case (Cons x xs)
  then show ?case by (cases t) auto
qed

lemma step_less_work:
  assumes inv: "sys_inv c" and t: "t < length (workers c)" and step: "worker_step c t = Next c'"
  shows "work_left c' < work_left c"
proof -
  let ?ws = "workers c" and ?w = "workers c ! t" and ?n = "length (fields_vec (shared_data c))"
  from inv have wf: "wf_store (shared_data c)" by (simp add: sys_inv_def)
  from inv t have wok: "worker_ok ?n ?w" by (simp add: sys_inv_def list_all_length)
  have "\<exists>w'. workers c' = ?ws[t := w'] \<and> length (fields_vec (shared_data c')) = ?n \<and>
          worker_work ?n w' < worker_work ?n ?w"
  proof (cases "pos ?w")
    case Idle
    show ?thesis
    proof (cases "todo ?w")
      case Nil
      with Idle step show ?thesis by (simp add: worker_step_def Let_def)
    next
      case (Cons a cs)
      with Idle step show ?thesis
        by (cases a) (auto simp: worker_step_def Let_def worker_work_def split: if_splits)
    qed
  next
    case (ReadLocked i)
    with wok have "unat i < ?n" by (simp add: worker_ok_def)
    with ReadLocked step wf show ?thesis
      by (auto simp: worker_step_def Let_def worker_work_def readField_ok)
  next
    case (WriteLocked i v)
    with wok have "unat i < ?n" by (simp add: worker_ok_def)
    with WriteLocked step wf show ?thesis
      by (auto simp: worker_step_def Let_def worker_work_def writeField_ok)
  next
    case (SnapLoop i oss)
    with step show ?thesis
      by (auto simp: worker_step_def Let_def worker_work_def operator_string_state split: if_splits)
  next
    case (SnapLocked i oss)
    with wok have "i < ?n" by (simp add: worker_ok_def)
    with SnapLocked step show ?thesis
      by (auto simp: worker_step_def Let_def worker_work_def)
  qed
  then obtain w' where w': "workers c' = ?ws[t := w']" "length (fields_vec (shared_data c')) = ?n"
      "worker_work ?n w' < worker_work ?n ?w"
    by blast
  from sum_list_map_update_less [OF t w'(3)] w'(1,2) show ?thesis
    by (simp add: work_left_def)
qed

lemma sys_inv_completes:
  assumes "sys_inv c"
  shows "\<exists>sched. list_all finished (workers (run c sched))"
  using assms
proof (induction "work_left c" arbitrary: c rule: less_induct)
  case less
  from sys_inv_progress [OF less.prems]
  consider "list_all finished (workers c)" | t where "t < length (workers c)" "can_step c t"
    by blast
  then show ?case
  proof cases
    case 1
    then have "list_all finished (workers (run c []))" by simp
    then show ?thesis by blast
  next
    case 2
    then obtain c' where s: "worker_step c t = Next c'"
      by (auto simp: can_step_def split: outcome.splits)
    with less.prems 2 have "sys_inv c'" "work_left c' < work_left c"
      by (auto intro: sys_inv_step step_less_work)
    from less.hyps [OF this(2,1)] obtain sched where "list_all finished (workers (run c' sched))"
      by blast
    with s 2 have "list_all finished (workers (run c (t # sched)))" by simp
    then show ?thesis by blast
  qed
qed

lemma run_append: "run c (xs @ ys) = run (run c xs) ys"
  by (induction xs arbitrary: c) (auto split: outcome.splits)

lemma no_fault:
  assumes inv: "sys_inv c" and t: "t < length (workers c)"
  shows "worker_step c t \<noteq> Fault"
proof -
  let ?w = "workers c ! t" and ?n = "length (fields_vec (shared_data c))"
  from inv t have wf: "wf_store (shared_data c)" and len: "length (field_mutexes c) = ?n"
    and wok: "worker_ok ?n ?w"
    by (simp_all add: sys_inv_def list_all_length)
  show ?thesis
  proof (cases "pos ?w")
    case Idle
    show ?thesis
    proof (cases "todo ?w")
      case Nil
      with Idle show ?thesis by (simp add: worker_step_def Let_def)
    next
      case (Cons a cs)
      with wok have "call_in_range ?n a" by (simp add: worker_ok_def)
      with Idle Cons len show ?thesis
        by (cases a) (auto simp: worker_step_def Let_def)
    qed
  next
    case (ReadLocked i)
    with wok have "unat i < ?n" by (simp add: worker_ok_def)
    with ReadLocked wf show ?thesis
      by (simp add: worker_step_def Let_def readField_ok)
  next
    case (WriteLocked i v)
    with wok have "unat i < ?n" by (simp add: worker_ok_def)
    with WriteLocked wf show ?thesis
      by (simp add: worker_step_def Let_def writeField_ok)
  next
    case (SnapLoop i oss)
    with len show ?thesis by (simp add: worker_step_def Let_def)
  next
    case (SnapLocked i oss)
    with wok have "i < ?n" by (simp add: worker_ok_def)
    with SnapLocked show ?thesis by (simp add: worker_step_def Let_def)
  qed
qed

text \<open>
  C6. Let any number of workers run any lists of \<open>readField\<close>, \<open>writeField\<close> and
  string-conversion calls (indices in range) on one store. No state that an interleaving of
  their steps reaches is a deadlock. More precisely, in every such state all workers have
  finished, or a worker that holds a lock can go on, or no mutex is owned at all and every
  worker that has not finished can go on. The step of a worker that holds a lock waits for
  no mutex, so this does not depend on which of the waiting threads a mutex admits first.
  Moreover no step is undefined, and from every reachable state some schedule lets all
  workers finish. The string conversion takes the shared locks in increasing index order,
  one at a time: it releases the lock of a field before it takes the next.
\<close>

theorem snapshot_never_deadlocks:
  assumes "wf_store s" and "list_all (list_all (call_in_range (length (fields_vec s)))) todos"
  shows "let c = run (start s todos) sched in
           \<not> deadlocked c \<and>
           (list_all finished (workers c) \<or>
            (\<exists>t<length (workers c). holds_lock (pos (workers c ! t)) \<and> can_step c t) \<or>
            (list_all (\<lambda>m. m = free_mutex) (field_mutexes c) \<and>
             (\<exists>t<length (workers c). \<not> finished (workers c ! t)) \<and>
             (\<forall>t<length (workers c). \<not> finished (workers c ! t) \<longrightarrow> can_step c t))) \<and>
           (\<forall>t<length (workers c). worker_step c t \<noteq> Fault) \<and>
           (\<exists>more. list_all finished (workers (run c more)))"
proof -
  from assms have "sys_inv (start s todos)" by (rule sys_inv_start)
  then have i: "sys_inv (run (start s todos) sched)" by (rule sys_inv_run)
  from sys_inv_progress [OF i] have "\<not> deadlocked (run (start s todos) sched)"
    by (auto simp: deadlocked_def list_all_iff)
  with sys_inv_progress [OF i] sys_inv_completes [OF i] no_fault [OF i]
  show ?thesis unfolding Let_def by blast
qed

theorem snapshot_never_deadlocks_witness:
  "wf_store (new_LabThreadSafeData 3) \<and>
   list_all (list_all (call_in_range (length (fields_vec (new_LabThreadSafeData 3)))))
     [[Snapshot, WriteField 0 1], [WriteField 0 5, Snapshot]] \<and>
   worker_step (run (start (new_LabThreadSafeData 3)
       [[Snapshot, WriteField 0 1], [WriteField 0 5, Snapshot]]) [1, 0, 0]) 0 = Blocked \<and>
   holds_lock (pos (workers (run (start (new_LabThreadSafeData 3)
       [[Snapshot, WriteField 0 1], [WriteField 0 5, Snapshot]]) [1, 0, 0]) ! 1)) \<and>
   can_step (run (start (new_LabThreadSafeData 3)
       [[Snapshot, WriteField 0 1], [WriteField 0 5, Snapshot]]) [1, 0, 0]) 1 \<and>
   \<not> deadlocked (run (start (new_LabThreadSafeData 3)
       [[Snapshot, WriteField 0 1], [WriteField 0 5, Snapshot]]) [1, 0, 0]) \<and>
   (\<exists>more. list_all finished (workers (run (run (start (new_LabThreadSafeData 3)
       [[Snapshot, WriteField 0 1], [WriteField 0 5, Snapshot]]) [1, 0, 0]) more)))"
proof -
  let ?todos = "[[Snapshot, WriteField 0 1], [WriteField 0 5, Snapshot]]"
  let ?c = "run (start (new_LabThreadSafeData 3) ?todos) [1, 0, 0]"
  have h1: "wf_store (new_LabThreadSafeData 3)" by (rule wf_new)
  have h2: "list_all (list_all (call_in_range (length (fields_vec (new_LabThreadSafeData 3))))) ?todos"
    by (simp add: new3)
  have b: "worker_step ?c 0 = Blocked" by code_simp
  have h: "holds_lock (pos (workers ?c ! 1))" by code_simp
  have s: "can_step ?c 1" by code_simp
  from snapshot_never_deadlocks [OF h1 h2, of "[1, 0, 0]"]
  have "\<not> deadlocked ?c \<and> (\<exists>more. list_all finished (workers (run ?c more)))"
    unfolding Let_def by blast
  with h1 h2 b h s show ?thesis by blast
qed

end
